theory Spec2Isabelle
  imports Complex_Main
begin

section \<open>Tensors and the library operations the agent calls\<close>

text \<open>
  The agent of \<^verbatim>\<open>src/agents/qr_dqn_agent.py\<close> computes on float32 tensors. A tensor is a
  nested list, outermost axis first. The training step and the action selection are
  modelled with real numbers as tensor entries: their theorems are about which entries
  are combined and how, and rounding, infinities and NaN are outside that part of the
  model. The values of the Huber function and of the quantile midpoints are modelled in
  float32 itself, in the section on float32 arithmetic below. Every library operation is written
  out from its documented behaviour. In \<open>choose_action\<close> and in the constructor's
  \<open>tau_hat\<close> the errors that Python or the library raise are results of the model.
  \<open>train_step\<close> is modelled on tensors of the shapes that the source's comments give; the
  theorems about its tensors state those shapes as hypotheses.
\<close>

datatype error = ValueError | ZeroDivisionError | TorchError

text \<open>
  \<^verbatim>\<open>Tensor.mean\<close> along one axis. On an axis of length zero the library gives NaN, which
  the model does not have (the quotient below is 0 there): the theorems that depend on a
  mean state that the axis is not empty.
\<close>

definition mean_t :: "real list \<Rightarrow> real" where
  "mean_t xs = sum_list xs / real (length xs)"

text \<open>
  The static method \<^verbatim>\<open>huber(x, k=1.0)\<close>, on one tensor entry:
  \<^verbatim>\<open>cond = (x.abs() < k).float()\<close>,
  \<^verbatim>\<open>0.5 * cond * x.pow(2) + (1 - cond) * k * (x.abs() - 0.5 * k)\<close>.
  This is the real-valued reading that the loss of the training step uses; \<open>huber_f32\<close>
  below is the same expression in float32.
\<close>

definition huber :: "real \<Rightarrow> real \<Rightarrow> real" where
  "huber x k =
     (let cond = (if \<bar>x\<bar> < k then 1 else 0)
      in 0.5 * cond * x\<^sup>2 + (1 - cond) * k * (\<bar>x\<bar> - 0.5 * k))"

text \<open>
  \<^verbatim>\<open>Tensor.argmax\<close> along one axis: the index of the first maximal entry. The scan keeps
  the best index seen so far and replaces it only by a strictly larger entry. On an axis
  of length zero the library raises: \<open>argmax_t\<close> returns the error, and \<open>argmax_first\<close> is
  the index alone, meant for a non-empty axis.
\<close>

fun argmax_scan :: "real list \<Rightarrow> nat \<Rightarrow> nat \<Rightarrow> real \<Rightarrow> nat" where
  "argmax_scan [] i best_i best = best_i"
| "argmax_scan (x # xs) i best_i best =
     (if best < x then argmax_scan xs (Suc i) i x else argmax_scan xs (Suc i) best_i best)"

definition argmax_first :: "real list \<Rightarrow> nat" where
  "argmax_first xs = (case xs of [] \<Rightarrow> 0 | x # rest \<Rightarrow> argmax_scan rest 1 0 x)"

definition argmax_t :: "real list \<Rightarrow> error + nat" where
  "argmax_t xs = (if xs = [] then Inl TorchError else Inr (argmax_first xs))"

text \<open>
  \<^verbatim>\<open>Tensor.quantile(q)\<close> along one axis, with the default linear interpolation: the axis is
  sorted, the rank \<open>q * (n - 1)\<close> is split into the positions below and above it, and the
  result interpolates between the two entries. The library refuses \<open>q\<close> outside \<open>[0, 1]\<close>
  and an empty input.
\<close>

definition quantile_t :: "real \<Rightarrow> real list \<Rightarrow> error + real" where
  "quantile_t q xs =
     (if q < 0 \<or> 1 < q \<or> xs = [] then Inl TorchError
      else
        let sorted_xs = sort xs;
            rank = q * real (length xs - 1);
            below = nat \<lfloor>rank\<rfloor>;
            above = nat \<lceil>rank\<rceil>;
            weight = rank - real below
        in Inr (sorted_xs ! below + weight * (sorted_xs ! above - sorted_xs ! below)))"

fun quantile_rows :: "real \<Rightarrow> real list list \<Rightarrow> error + real list" where
  "quantile_rows q [] = Inr []"
| "quantile_rows q (row # rows) =
     (case quantile_t q row of
        Inl e \<Rightarrow> Inl e
      | Inr v \<Rightarrow> (case quantile_rows q rows of Inl e \<Rightarrow> Inl e | Inr vs \<Rightarrow> Inr (v # vs)))"

fun quantile_dim2 :: "real \<Rightarrow> real list list list \<Rightarrow> error + real list list" where
  "quantile_dim2 q [] = Inr []"
| "quantile_dim2 q (m # ms) =
     (case quantile_rows q m of
        Inl e \<Rightarrow> Inl e
      | Inr r \<Rightarrow> (case quantile_dim2 q ms of Inl e \<Rightarrow> Inl e | Inr rs \<Rightarrow> Inr (r # rs)))"

text \<open>
  \<^verbatim>\<open>t.gather(dim=1, index=a.expand(-1, -1, n)).squeeze(1)\<close> for a tensor \<open>t\<close> of shape
  (batch, actions, quantiles) and one action index per batch element: entry \<open>[b][q]\<close> of
  the result is \<open>t[b][a[b]][q]\<close>, for \<open>q < n\<close>. The library raises on an index that is not
  below the number of actions; the model is meant for indices in range.
\<close>

definition gather_dim1 :: "real list list list \<Rightarrow> nat list \<Rightarrow> nat \<Rightarrow> real list list" where
  "gather_dim1 t index n = map2 (\<lambda>rows a. take n (rows ! a)) t index"

section \<open>Float32 arithmetic\<close>

text \<open>
  IEEE 754 binary32, as far as the agent's scalar functions need it. A value is a finite
  real number, an infinity or NaN. The two signed zeros are one value: no operation below
  tells them apart.
\<close>

datatype fval = Finite real | PInf | NInf | NaN

text \<open>
  Rounding to the nearest representable number, ties to the even significand.
  \<open>round_to p emin emax\<close> rounds to \<open>p\<close> significant bits; below \<open>2 powi emin\<close> the
  spacing stays that of the smallest normal numbers (gradual underflow), and a result of
  magnitude \<open>2 powi (emax + 1)\<close> or more is an infinity. \<open>round32\<close> is binary32 (24
  bits, exponents from -126 to 127) and \<open>round64\<close> is binary64 (53 bits, exponents from
  -1022 to 1023), the format of Python's floats.
\<close>

definition round_even :: "real \<Rightarrow> int" where
  "round_even q =
     (let f = \<lfloor>q\<rfloor>; d = q - of_int f
      in if d < 1 / 2 then f else if 1 / 2 < d then f + 1 else if even f then f else f + 1)"

definition ulp :: "nat \<Rightarrow> int \<Rightarrow> real \<Rightarrow> real" where
  "ulp p emin r = 2 powi (max \<lfloor>log 2 \<bar>r\<bar>\<rfloor> emin - int p + 1)"

definition round_to :: "nat \<Rightarrow> int \<Rightarrow> int \<Rightarrow> real \<Rightarrow> fval" where
  "round_to p emin emax r =
     (if r = 0 then Finite 0
      else
        let u = ulp p emin r;
            v = of_int (round_even (r / u)) * u
        in if 2 powi (emax + 1) \<le> \<bar>v\<bar> then (if 0 < r then PInf else NInf) else Finite v)"

definition round32 :: "real \<Rightarrow> fval" where
  "round32 = round_to 24 (- 126) 127"

definition round64 :: "real \<Rightarrow> fval" where
  "round64 = round_to 53 (- 1022) 1023"


text \<open>
  The operations on tensor entries. Each computes the exact result and rounds it once;
  NaN propagates, and the products and sums of infinities follow IEEE 754. \<open>fless\<close> is
  the comparison \<^verbatim>\<open><\<close>, false whenever a NaN is involved. \<open>cast32\<close> converts a Python
  float to float32.
\<close>

fun fneg :: "fval \<Rightarrow> fval" where
  "fneg (Finite x) = Finite (- x)"
| "fneg PInf = NInf"
| "fneg NInf = PInf"
| "fneg NaN = NaN"


fun fsign :: "fval \<Rightarrow> real" where
  "fsign (Finite x) = sgn x"
| "fsign PInf = 1"
| "fsign NInf = - 1"
| "fsign NaN = 0"


fun fmul32 :: "fval \<Rightarrow> fval \<Rightarrow> fval" where
  "fmul32 (Finite x) (Finite y) = round32 (x * y)"
| "fmul32 NaN _ = NaN"
| "fmul32 _ NaN = NaN"
| "fmul32 a b =
     (if fsign a * fsign b = 0 then NaN else if 0 < fsign a * fsign b then PInf else NInf)"

fun fadd32 :: "fval \<Rightarrow> fval \<Rightarrow> fval" where
  "fadd32 (Finite x) (Finite y) = round32 (x + y)"
| "fadd32 NaN _ = NaN"
| "fadd32 _ NaN = NaN"
| "fadd32 PInf NInf = NaN"
| "fadd32 NInf PInf = NaN"
| "fadd32 PInf _ = PInf"
| "fadd32 _ PInf = PInf"
| "fadd32 NInf _ = NInf"
| "fadd32 _ NInf = NInf"

definition fsub32 :: "fval \<Rightarrow> fval \<Rightarrow> fval" where
  "fsub32 a b = fadd32 a (fneg b)"

fun fdiv32 :: "fval \<Rightarrow> fval \<Rightarrow> fval" where
  "fdiv32 (Finite x) (Finite y) =
     (if y = 0 then (if x = 0 then NaN else if 0 < x then PInf else NInf)
      else round32 (x / y))"
| "fdiv32 NaN _ = NaN"
| "fdiv32 _ NaN = NaN"
| "fdiv32 (Finite x) _ = Finite 0"
| "fdiv32 PInf (Finite y) = (if 0 \<le> y then PInf else NInf)"
| "fdiv32 NInf (Finite y) = (if 0 \<le> y then NInf else PInf)"
| "fdiv32 _ _ = NaN"

definition cast32 :: "fval \<Rightarrow> fval" where
  "cast32 a = (case a of Finite x \<Rightarrow> round32 x | _ \<Rightarrow> a)"


text \<open>
  \<^verbatim>\<open>torch.linspace(start, end, steps)\<close> with the default dtype float32. A negative number
  of steps is refused and one step gives \<open>start\<close> alone. Otherwise the library computes
  \<open>step = (end - start) / (steps - 1)\<close> and fills entry \<open>idx\<close> with
  \<open>start + step * idx\<close> below the middle and with \<open>end - step * (steps - idx - 1)\<close> from
  the middle on, so that the last entry is \<open>end\<close>; every operation is rounded on its own.
\<close>

definition linspace_entry :: "fval \<Rightarrow> fval \<Rightarrow> int \<Rightarrow> int \<Rightarrow> fval" where
  "linspace_entry start end steps idx =
     (let step = fdiv32 (fsub32 end start) (round32 (of_int (steps - 1)));
          halfway = steps div 2
      in if idx < halfway then fadd32 start (fmul32 step (round32 (of_int idx)))
         else fsub32 end (fmul32 step (round32 (of_int (steps - idx - 1)))))"

definition linspace :: "real \<Rightarrow> real \<Rightarrow> int \<Rightarrow> error + fval list" where
  "linspace start end steps =
     (if steps < 0 then Inl TorchError
      else if steps = 1 then Inr [round32 start]
      else Inr (map (\<lambda>i. linspace_entry (round32 start) (round32 end) steps (int i))
                  [0 ..< nat steps]))"

text \<open>
  Line 62 of the constructor:
  \<^verbatim>\<open>torch.linspace(0.0, 1.0, num_quantiles+1)[:-1] + 0.5 / num_quantiles\<close>.
  Python evaluates the left operand first, then \<^verbatim>\<open>0.5 / num_quantiles\<close> as a Python float,
  which raises ZeroDivisionError for \<open>num_quantiles = 0\<close>; the sum casts it to float32.
\<close>

definition tau_hat_init :: "int \<Rightarrow> error + fval list" where
  "tau_hat_init num_quantiles =
     (case linspace 0 1 (num_quantiles + 1) of
        Inl e \<Rightarrow> Inl e
      | Inr xs \<Rightarrow>
          (if num_quantiles = 0 then Inl ZeroDivisionError
           else Inr (map (\<lambda>x. fadd32 x (cast32 (round64 (0.5 / of_int num_quantiles))))
                       (butlast xs))))"

section \<open>The agent\<close>

text \<open>
  The fields that \<^verbatim>\<open>__init__\<close> sets. The two networks are held as their parameter sets
  (\<open>'p\<close>), the optimizer as its state (\<open>'o\<close>), the replay buffer as its state (\<open>'b\<close>).
\<close>

record ('p, 'o, 'b) agent =
  num_actions :: nat
  num_quantiles :: int
  gamma :: real
  lr :: real
  batch_size :: int
  target_update_interval :: int
  epsilon_start :: real
  epsilon_end :: real
  epsilon_decay :: real
  epsilon :: real
  alpha :: real
  beta :: real
  beta_increment :: real
  online_net :: 'p
  target_net :: 'p
  optimizer :: 'o
  replay_buffer :: 'b
  tau_hat :: "real list"

text \<open>What \<^verbatim>\<open>replay_buffer.sample\<close> returns, field by field.\<close>

record 'img batch =
  states :: "'img list"
  actions :: "nat list"
  rewards :: "real list"
  next_states :: "'img list"
  dones :: "bool list"
  indices :: "nat list"
  weights :: "real list"

text \<open>
  The classes the agent imports are not part of the file: the network \<^verbatim>\<open>QRCNN\<close>, the
  \<^verbatim>\<open>PrioritizedReplayBuffer\<close> and the Adam optimizer. They are parameters of the model.
  \<^item> \<open>forward\<close>: the network's output for a parameter set and a batch of images, of shape
    (batch, num_actions, num_quantiles);
  \<^item> \<open>buffer_len\<close>, \<open>sample\<close>, \<open>update_priorities\<close>: the buffer's \<^verbatim>\<open>__len__\<close>,
    \<^verbatim>\<open>sample(batch_size, beta)\<close> (the batch and the buffer after the draw) and
    \<^verbatim>\<open>update_priorities(indices, td_errors)\<close>;
  \<^item> \<open>optimizer_step\<close>: \<^verbatim>\<open>zero_grad(); loss.backward(); step()\<close> for a loss given as a
    function of the online parameters: the new online parameters and optimizer state.
\<close>

record ('p, 'o, 'b, 'img) collaborators =
  forward :: "'p \<Rightarrow> 'img list \<Rightarrow> real list list list"
  buffer_len :: "'b \<Rightarrow> nat"
  sample :: "'b \<Rightarrow> int \<Rightarrow> real \<Rightarrow> 'img batch \<times> 'b"
  update_priorities :: "'b \<Rightarrow> nat list \<Rightarrow> real list \<Rightarrow> 'b"
  optimizer_step :: "('p \<Rightarrow> real) \<Rightarrow> 'o \<Rightarrow> 'p \<Rightarrow> 'p \<times> 'o"

subsection \<open>Action selection\<close>

text \<open>
  Lines 78 to 85 of \<^verbatim>\<open>choose_action\<close>: the reduction of the quantile axis that the risk
  preference selects, or the ValueError of the last branch.
\<close>

definition q_values :: "string \<Rightarrow> real list list list \<Rightarrow> error + real list list" where
  "q_values risk_preference quantiles =
     (if risk_preference = ''neutral'' then Inr (map (map mean_t) quantiles)
      else if risk_preference = ''risk-averse'' then quantile_dim2 0.1 quantiles
      else if risk_preference = ''risk-seeking'' then quantile_dim2 0.9 quantiles
      else Inl ValueError)"

text \<open>
  \<^verbatim>\<open>choose_action\<close>. \<open>u\<close> is the value \<^verbatim>\<open>random.random()\<close> returns, in \<open>[0, 1)\<close>, and
  \<open>sampled\<close> the action \<^verbatim>\<open>env.action_space.sample()\<close> returns. The network is called on a
  batch of one state; \<^verbatim>\<open>.item()\<close> needs the argmax to hold exactly one index.
\<close>

definition choose_action ::
  "('p, 'o, 'b, 'img) collaborators \<Rightarrow> real \<Rightarrow> nat \<Rightarrow> ('p, 'o, 'b) agent \<Rightarrow> 'img \<Rightarrow> string
     \<Rightarrow> error + nat" where
  "choose_action ext u sampled self state risk_preference =
     (if u < epsilon self then Inr sampled
      else
        let quantiles = forward ext (online_net self) [state]
        in case q_values risk_preference quantiles of
             Inl e \<Rightarrow> Inl e
           | Inr qv \<Rightarrow> (case qv of [row] \<Rightarrow> argmax_t row | _ \<Rightarrow> Inl TorchError))"

subsection \<open>Target synchronisation\<close>

text \<open>\<^verbatim>\<open>update_target_network\<close>: the target network loads a copy of the online parameters.\<close>

definition update_target_network :: "('p, 'o, 'b) agent \<Rightarrow> ('p, 'o, 'b) agent" where
  "update_target_network self = self\<lparr>target_net := online_net self\<rparr>"

subsection \<open>The training step\<close>

text \<open>
  Lines 126 to 169: the Bellman targets, of shape (batch, num_quantiles). The axes of
  length one that the source inserts for broadcasting and squeezes again are left out, and
  \<^verbatim>\<open>dones\<close> is converted to 1.0 and 0.0 as \<^verbatim>\<open>.float()\<close> does.
\<close>

definition targets ::
  "('p, 'o, 'b, 'img) collaborators \<Rightarrow> ('p, 'o, 'b) agent \<Rightarrow> 'img batch \<Rightarrow> real list list" where
  "targets ext self batch =
     (let next_quantiles_online = forward ext (online_net self) (next_states batch);
          next_q_online_mean = map (map mean_t) next_quantiles_online;
          best_actions = map argmax_first next_q_online_mean;
          next_quantiles_target = forward ext (target_net self) (next_states batch);
          next_quantiles_target_chosen =
            gather_dim1 next_quantiles_target best_actions (nat (num_quantiles self));
          temp1 = map (\<lambda>d. 1 - (if d then 1 else 0)) (dones batch);
          temp2 = map (\<lambda>t. t * gamma self) temp1;
          temp3 = map2 (\<lambda>t row. map (\<lambda>q. t * q) row) temp2 next_quantiles_target_chosen
      in map2 (\<lambda>r row. map (\<lambda>q. r + q) row) (rewards batch) temp3)"

text \<open>
  Lines 176 to 184: the loss of each batch element. In \<open>pairwise_delta\<close> the outer axis
  comes from \<^verbatim>\<open>quantiles_pred_chosen.unsqueeze(-1)\<close> and the inner one from
  \<^verbatim>\<open>targets.unsqueeze(1)\<close>; \<^verbatim>\<open>tau_hat.view(1, -1, 1)\<close> runs along the outer axis.
\<close>

definition quantile_huber_loss ::
  "real list \<Rightarrow> real list list \<Rightarrow> real list list \<Rightarrow> real list" where
  "quantile_huber_loss tau tgts quantiles_pred_chosen =
     map2 (\<lambda>t p.
        let pairwise_delta = map (\<lambda>pv. map (\<lambda>tv. tv - pv) t) p;
            huber_loss = map (map (\<lambda>x. huber x 1)) pairwise_delta;
            indicator = map (map (\<lambda>x. if x < 0 then 1 else 0)) pairwise_delta;
            quantile_weights = map2 (\<lambda>tv row. map (\<lambda>i. \<bar>tv - i\<bar>) row) tau indicator
        in mean_t (map mean_t (map2 (map2 (*)) quantile_weights huber_loss)))
       tgts quantiles_pred_chosen"

text \<open>Line 185: the scalar loss.\<close>

definition weighted_loss :: "real list \<Rightarrow> real list \<Rightarrow> real" where
  "weighted_loss ws loss = mean_t (map2 (*) ws loss)"

text \<open>
  \<^verbatim>\<open>train_step\<close>. The loss is handed to the optimizer as a function of the online
  parameters, with the targets fixed (they are computed under \<^verbatim>\<open>no_grad\<close>); the TD errors
  use the predictions of the forward pass, made before the optimizer's step.
\<close>

definition train_step ::
  "('p, 'o, 'b, 'img) collaborators \<Rightarrow> ('p, 'o, 'b) agent \<Rightarrow> ('p, 'o, 'b) agent" where
  "train_step ext self =
     (if int (buffer_len ext (replay_buffer self)) < batch_size self then self
      else
        let (batch, buf1) = sample ext (replay_buffer self) (batch_size self) (beta self);
            beta1 = min 1 (beta self + beta_increment self);
            quantiles_pred_chosen =
              (\<lambda>p. gather_dim1 (forward ext p (states batch)) (actions batch)
                     (nat (num_quantiles self)));
            tgts = targets ext self batch;
            loss_of =
              (\<lambda>p. weighted_loss (weights batch)
                     (quantile_huber_loss (tau_hat self) tgts (quantiles_pred_chosen p)));
            (online1, opt1) = optimizer_step ext loss_of (optimizer self) (online_net self);
            td_errors =
              map2 (\<lambda>t p. mean_t (map2 (\<lambda>x y. \<bar>x - y\<bar>) t p))
                tgts (quantiles_pred_chosen (online_net self));
            buf2 = update_priorities ext buf1 (indices batch) td_errors
        in self\<lparr>beta := beta1, online_net := online1, optimizer := opt1,
                replay_buffer := buf2\<rparr>)"

section \<open>Reference formulas for the loss\<close>

text \<open>
  The quantile Huber loss of one batch element, written with indices, for a target row
  \<open>t\<close> and a predicted row \<open>p\<close> of \<open>n\<close> quantiles each: with
  \<open>delta i j = t ! i - p ! j\<close>, the Huber value of \<open>delta i j\<close> is weighted by
  \<open>\<bar>tau - 1{delta i j < 0}\<bar>\<close> and averaged over \<open>j\<close>, then over \<open>i\<close>. The first
  formula follows the specification's words and takes \<open>tau\<close> at the target index \<open>i\<close>.
\<close>

definition element_loss_target_tau :: "real list \<Rightarrow> nat \<Rightarrow> real list \<Rightarrow> real list \<Rightarrow> real" where
  "element_loss_target_tau tau n t p =
     (\<Sum>i\<leftarrow>[0 ..< n].
        (\<Sum>j\<leftarrow>[0 ..< n].
           \<bar>tau ! i - (if t ! i - p ! j < 0 then 1 else 0)\<bar> * huber (t ! i - p ! j) 1) / real n)
     / real n"

text \<open>The second formula takes \<open>tau\<close> at the predicted index \<open>j\<close>.\<close>

definition element_loss_predicted_tau :: "real list \<Rightarrow> nat \<Rightarrow> real list \<Rightarrow> real list \<Rightarrow> real" where
  "element_loss_predicted_tau tau n t p =
     (\<Sum>i\<leftarrow>[0 ..< n].
        (\<Sum>j\<leftarrow>[0 ..< n].
           \<bar>tau ! j - (if t ! i - p ! j < 0 then 1 else 0)\<bar> * huber (t ! i - p ! j) 1) / real n)
     / real n"

text \<open>The importance-weighted mean over the batch, \<open>mean_b (w[b] * loss[b])\<close>.\<close>

definition batch_mean_loss :: "real list \<Rightarrow> (nat \<Rightarrow> real) \<Rightarrow> nat \<Rightarrow> real" where
  "batch_mean_loss ws element_loss n_batch =
     (\<Sum>b\<leftarrow>[0 ..< n_batch]. ws ! b * element_loss b) / real n_batch"

section \<open>A small instance\<close>

text \<open>
  Concrete collaborators on which the theorems below are run: images are reals, the
  network has one real parameter, two actions and two quantiles, and the buffer is the
  list of its transitions (state, action, reward, next state, done), sampled from the
  front with unit weights.
\<close>

type_synonym ex_buffer = "(real \<times> nat \<times> real \<times> real \<times> bool) list"

definition ex_sample :: "ex_buffer \<Rightarrow> int \<Rightarrow> real \<Rightarrow> real batch \<times> ex_buffer" where
  "ex_sample buf n b =
     (let ts = take (nat n) buf
      in (\<lparr>states = map fst ts,
           actions = map (\<lambda>t. fst (snd t)) ts,
           rewards = map (\<lambda>t. fst (snd (snd t))) ts,
           next_states = map (\<lambda>t. fst (snd (snd (snd t)))) ts,
           dones = map (\<lambda>t. snd (snd (snd (snd t)))) ts,
           indices = [0 ..< length ts],
           weights = map (\<lambda>t. 1) ts\<rparr>, buf))"

definition ex_ext :: "(real, nat, ex_buffer, real) collaborators" where
  "ex_ext =
     \<lparr>forward = (\<lambda>p imgs. map (\<lambda>x. [[p * x, p * x + 1], [x, x + 2]]) imgs),
      buffer_len = length,
      sample = ex_sample,
      update_priorities = (\<lambda>buf idx errs. buf),
      optimizer_step = (\<lambda>loss opt p. (p - (loss (p + 1) - loss p) / 10, Suc opt))\<rparr>"

definition ex_agent :: "ex_buffer \<Rightarrow> (real, nat, ex_buffer) agent" where
  "ex_agent buf =
     \<lparr>num_actions = 2, num_quantiles = 2, gamma = 99 / 100, lr = 1 / 10000, batch_size = 1,
      target_update_interval = 10000, epsilon_start = 1, epsilon_end = 1 / 100,
      epsilon_decay = 1 / 10, epsilon = 1, alpha = 6 / 10, beta = 4 / 10,
      beta_increment = 1 / 1000, online_net = 2, target_net = 3, optimizer = 0,
      replay_buffer = buf, tau_hat = [1 / 4, 3 / 4]\<rparr>"

text \<open>The same agent with exploration switched off.\<close>

definition ex_greedy :: "(real, nat, ex_buffer) agent" where
  "ex_greedy = (ex_agent [])\<lparr>epsilon := 0\<rparr>"

text \<open>A batch of two transitions, the second one terminal.\<close>

definition ex_batch :: "real batch" where
  "ex_batch = fst (ex_sample [(1, 0, 1, 2, False), (1, 1, 5, 3, True)] 2 (4 / 10))"

section \<open>Properties\<close>

subsection \<open>Rounding to nearest\<close>

lemma round_even_of_int: "round_even (of_int n) = n"
  by (simp add: round_even_def)

lemma round_even_bounds: "of_int (round_even q) - 1 / 2 \<le> q" "q \<le> of_int (round_even q) + 1 / 2"
  by (auto simp add: round_even_def Let_def) linarith+

lemma round_even_mono:
  assumes "q \<le> q'"
  shows "round_even q \<le> round_even q'"
proof (rule ccontr)
  assume "\<not> round_even q \<le> round_even q'"
  then have lt: "round_even q' + 1 \<le> round_even q" by simp
  have a: "of_int (round_even q) - 1 / 2 \<le> q" by (rule round_even_bounds)
  have b: "q' \<le> of_int (round_even q') + 1 / 2" by (rule round_even_bounds)
  from lt have c: "real_of_int (round_even q') + 1 \<le> real_of_int (round_even q)" by linarith
  from a b c assms have eq: "q = q'" "q = of_int (round_even q') + 1 / 2"
    "real_of_int (round_even q) = real_of_int (round_even q') + 1"
    by linarith+
  from eq(2) have fl: "\<lfloor>q\<rfloor> = round_even q'"
    by (simp add: floor_eq_iff)
  have "round_even q = (if even (round_even q') then round_even q' else round_even q' + 1)"
    using eq(2) fl by (simp add: round_even_def Let_def)
  with eq(1) eq(3) show False
    by (auto split: if_splits)
qed

lemma round_even_le: "q \<le> of_int n \<Longrightarrow> round_even q \<le> n"
  using round_even_mono [of q "of_int n"] by (simp add: round_even_of_int)

lemma round_even_ge: "of_int n \<le> q \<Longrightarrow> n \<le> round_even q"
  using round_even_mono [of "of_int n" q] by (simp add: round_even_of_int)

lemma round_even_zero: "\<bar>q\<bar> \<le> 1 / 2 \<Longrightarrow> round_even q = 0"
proof -
  assume a: "\<bar>q\<bar> \<le> 1 / 2"
  then consider "q < 0" | "0 \<le> q" "q < 1 / 2" | "q = 1 / 2" by linarith
  then show ?thesis
  proof cases
    case 1
    with a have f: "\<lfloor>q\<rfloor> = - 1" by (simp add: floor_eq_iff)
    have "q = - 1 / 2 \<or> - 1 / 2 < q" using a by linarith
    then show ?thesis using 1 f by (auto simp add: round_even_def Let_def)
  next
    case 2
    then have f: "\<lfloor>q\<rfloor> = 0" by (simp add: floor_eq_iff)
    with 2 show ?thesis by (simp add: round_even_def Let_def)
  next
    case 3
    then have f: "\<lfloor>q\<rfloor> = 0" by (simp add: floor_eq_iff)
    with 3 show ?thesis by (simp add: round_even_def Let_def)
  qed
qed




lemma pow2_le_iff: "(2::real) powi m \<le> 2 powi n \<longleftrightarrow> m \<le> n"
proof
  assume le: "(2::real) powi m \<le> 2 powi n"
  show "m \<le> n"
  proof (rule ccontr)
    assume "\<not> m \<le> n"
    then have "n < m" by simp
    then have "(2::real) powi n < 2 powi m" by (rule power_int_strict_increasing) simp
    with le show False by simp
  qed
next
  assume "m \<le> n"
  then show "(2::real) powi m \<le> 2 powi n" by (rule power_int_increasing) simp
qed

lemma pow2_less_iff: "(2::real) powi m < 2 powi n \<longleftrightarrow> m < n"
  using pow2_le_iff [of n m] by (simp add: not_le [symmetric])

lemma exponent_bounds:
  assumes "r \<noteq> 0"
  shows "2 powi \<lfloor>log 2 \<bar>r\<bar>\<rfloor> \<le> \<bar>r\<bar>" and "\<bar>r\<bar> < 2 powi (\<lfloor>log 2 \<bar>r\<bar>\<rfloor> + 1)"
proof -
  have pos: "0 < \<bar>r\<bar>" using assms by simp
  have "2 powr real_of_int \<lfloor>log 2 \<bar>r\<bar>\<rfloor> \<le> \<bar>r\<bar> \<and> \<bar>r\<bar> < 2 powr real_of_int (\<lfloor>log 2 \<bar>r\<bar>\<rfloor> + 1)"
    using floor_log_eq_powr_iff [OF pos, of 2 "\<lfloor>log 2 \<bar>r\<bar>\<rfloor>"] by simp
  then show "2 powi \<lfloor>log 2 \<bar>r\<bar>\<rfloor> \<le> \<bar>r\<bar>" and "\<bar>r\<bar> < 2 powi (\<lfloor>log 2 \<bar>r\<bar>\<rfloor> + 1)"
    by (simp_all only: powr_real_of_int' [of 2, simplified])
qed

lemma exponent_le:
  assumes "r \<noteq> 0" and "\<bar>r\<bar> \<le> 2 powi k"
  shows "\<lfloor>log 2 \<bar>r\<bar>\<rfloor> \<le> k"
proof -
  from exponent_bounds(1) [OF assms(1)] assms(2)
  have "(2::real) powi \<lfloor>log 2 \<bar>r\<bar>\<rfloor> \<le> 2 powi k" by linarith
  then show ?thesis by (simp only: pow2_le_iff)
qed

lemma exponent_less:
  assumes "r \<noteq> 0" and "\<bar>r\<bar> < 2 powi k"
  shows "\<lfloor>log 2 \<bar>r\<bar>\<rfloor> < k"
proof -
  from exponent_bounds(1) [OF assms(1)] assms(2)
  have "(2::real) powi \<lfloor>log 2 \<bar>r\<bar>\<rfloor> < 2 powi k" by linarith
  then show ?thesis by (simp only: pow2_less_iff)
qed

lemma pow2_pos: "0 < (2::real) powi k"
  by simp

lemma pow2_le_abs_nonzero:
  assumes "2 powi k \<le> \<bar>r :: real\<bar>"
  shows "r \<noteq> 0"
proof
  assume "r = 0"
  then have "\<bar>r\<bar> = 0" by simp
  with assms pow2_pos [of k] show False by linarith
qed

lemma exponent_ge:
  assumes "2 powi k \<le> \<bar>r\<bar>"
  shows "k \<le> \<lfloor>log 2 \<bar>r\<bar>\<rfloor>"
proof -
  have nz: "r \<noteq> 0" using assms by (rule pow2_le_abs_nonzero)
  from exponent_bounds(2) [OF nz] assms
  have "(2::real) powi k < 2 powi (\<lfloor>log 2 \<bar>r\<bar>\<rfloor> + 1)" by linarith
  then have "k < \<lfloor>log 2 \<bar>r\<bar>\<rfloor> + 1" by (simp only: pow2_less_iff)
  then show ?thesis by simp
qed

lemma ulp_pos: "0 < ulp p emin r"
  by (simp add: ulp_def)

lemma pow2_int: "0 \<le> n \<Longrightarrow> (2::real) powi n = of_int (2 ^ nat n)"
  by (simp add: power_int_nonneg_exp)

lemma pow2_add: "(2::real) powi (m + n) = 2 powi m * 2 powi n"
  by (simp add: power_int_add)

lemma pow2_nat_mult: "(2::real) ^ n * 2 powi k = 2 powi (int n + k)"
  by (simp add: power_int_add)

lemma pow2_diff: "(2::real) powi (m - n) = 2 powi m / 2 powi n"
  by (simp add: power_int_diff)

lemma round_to_nonzero:
  assumes "r \<noteq> 0"
  shows "round_to p emin emax r =
           (if 2 powi (emax + 1) \<le> \<bar>of_int (round_even (r / ulp p emin r)) * ulp p emin r\<bar>
            then (if 0 < r then PInf else NInf)
            else Finite (of_int (round_even (r / ulp p emin r)) * ulp p emin r))"
  using assms by (simp add: round_to_def Let_def)

lemma round_to_le_pow:
  assumes r: "\<bar>r\<bar> \<le> 2 powi k" and k: "k \<le> emax"
  shows "\<exists>v. round_to p emin emax r = Finite v \<and> \<bar>v\<bar> \<le> 2 powi k"
proof (cases "r = 0")
  case True
  then show ?thesis by (simp add: round_to_def)
next
  case False
  define ue where "ue = max \<lfloor>log 2 \<bar>r\<bar>\<rfloor> emin - int p + 1"
  define u where "u = ulp p emin r"
  define n where "n = round_even (r / u)"
  have u: "u = 2 powi ue" by (simp add: u_def ue_def ulp_def)
  have upos: "0 < u" by (simp add: u)
  have "r \<le> 2 powi k" and "- (2 powi k) \<le> r" using r by linarith+
  then have "r / u \<le> 2 powi k / u" and "(- (2 powi k)) / u \<le> r / u"
    using upos by (intro divide_right_mono; simp)+
  then have q: "r / u \<le> 2 powi (k - ue)" "- (2 powi (k - ue)) \<le> r / u"
    by (simp_all add: pow2_diff u)
  have n: "\<bar>real_of_int n\<bar> * u \<le> 2 powi k"
  proof (cases "ue \<le> k")
    case True
    define M where "M = (2::int) ^ nat (k - ue)"
    have M: "real_of_int M = 2 powi (k - ue)"
      using True by (simp add: M_def pow2_int)
    from q M have le: "r / u \<le> of_int M" and ge: "of_int (- M) \<le> r / u" by simp_all
    have "n \<le> M" unfolding n_def using le by (rule round_even_le)
    moreover have "- M \<le> n" unfolding n_def using ge by (rule round_even_ge)
    ultimately have "n \<le> M" and "- M \<le> n" .
    then have "\<bar>real_of_int n\<bar> \<le> real_of_int M" by linarith
    then have "\<bar>real_of_int n\<bar> * u \<le> real_of_int M * u"
      using upos by (simp add: mult_right_mono)
    also have "real_of_int M * u = 2 powi k"
      by (simp add: M u pow2_diff)
    finally show ?thesis .
  next
    case False
    then have "k - ue \<le> - 1" by simp
    then have "(2::real) powi (k - ue) \<le> 2 powi (- 1)" by (simp only: pow2_le_iff)
    then have "(2::real) powi (k - ue) \<le> 1 / 2" by simp
    with q have "\<bar>r / u\<bar> \<le> 1 / 2" by linarith
    then have "n = 0" unfolding n_def by (rule round_even_zero)
    then show ?thesis by simp
  qed
  have v: "\<bar>real_of_int n * u\<bar> \<le> 2 powi k"
    using n upos by (simp add: abs_mult)
  have "(2::real) powi k < 2 powi (emax + 1)"
    using k by (simp only: pow2_less_iff)
  with v have "\<not> 2 powi (emax + 1) \<le> \<bar>real_of_int n * u\<bar>" by linarith
  with v show ?thesis
    unfolding round_to_nonzero [OF False] n_def u_def by simp
qed

lemma round_to_ge_pow:
  assumes r: "2 powi k \<le> r" and k: "emin - int p + 1 \<le> k" and p: "0 < p"
  shows "round_to p emin emax r = PInf \<or>
         (\<exists>v. round_to p emin emax r = Finite v \<and> 2 powi k \<le> v)"
proof -
  have rpos: "0 < r" using r pow2_pos [of k] by linarith
  then have nz: "r \<noteq> 0" by simp
  define E where "E = \<lfloor>log 2 \<bar>r\<bar>\<rfloor>"
  define ue where "ue = max E emin - int p + 1"
  define u where "u = ulp p emin r"
  define n where "n = round_even (r / u)"
  have u: "u = 2 powi ue" by (simp add: u_def ue_def E_def ulp_def)
  have upos: "0 < u" by (simp add: u)
  have kE: "k \<le> E" unfolding E_def using r rpos by (intro exponent_ge) simp
  have Er: "2 powi E \<le> r" using exponent_bounds(1) [OF nz] rpos by (simp add: E_def)
  obtain j where j: "ue \<le> j" "k \<le> j" "2 powi j \<le> r"
  proof (cases "emin \<le> E")
    case True
    then have "ue \<le> E" using p by (simp add: ue_def)
    with kE Er that show ?thesis by blast
  next
    case False
    then have "ue \<le> k" using k by (simp add: ue_def)
    with r that show ?thesis by blast
  qed
  define M where "M = (2::int) ^ nat (j - ue)"
  have M: "real_of_int M = 2 powi (j - ue)"
    using j(1) by (simp add: M_def pow2_int)
  have "real_of_int M \<le> r / u"
    using j(3) upos by (simp add: M pow2_diff u divide_right_mono)
  then have "M \<le> n" unfolding n_def by (rule round_even_ge)
  then have "real_of_int M * u \<le> real_of_int n * u"
    using upos by (simp add: mult_right_mono)
  moreover have "real_of_int M * u = 2 powi j" by (simp add: M u pow2_diff)
  moreover have "(2::real) powi k \<le> 2 powi j" using j(2) by (simp only: pow2_le_iff)
  ultimately have "2 powi k \<le> real_of_int n * u" by linarith
  then show ?thesis
    unfolding round_to_nonzero [OF nz] n_def u_def using rpos by simp
qed


lemma round_to_nonneg:
  assumes "0 \<le> r" and "round_to p emin emax r = Finite v"
  shows "0 \<le> v"
proof (cases "r = 0")
  case True
  with assms show ?thesis by (simp add: round_to_def)
next
  case False
  have "0 \<le> r / ulp p emin r" using assms(1) ulp_pos [of p emin r] by simp
  then have "0 \<le> round_even (r / ulp p emin r)"
    using round_even_ge [of 0 "r / ulp p emin r"] by simp
  then have "0 \<le> real_of_int (round_even (r / ulp p emin r)) * ulp p emin r"
    using ulp_pos [of p emin r] by simp
  with assms(2) show ?thesis
    unfolding round_to_nonzero [OF False] by (simp split: if_splits)
qed



lemma round_to_exact:
  assumes r: "r = of_int m * 2 powi e" and m: "\<bar>m\<bar> < 2 ^ p"
    and e: "emin - int p + 1 \<le> e" and fin: "\<bar>r\<bar> < 2 powi (emax + 1)"
  shows "round_to p emin emax r = Finite r"
proof (cases "r = 0")
  case True
  then show ?thesis by (simp add: round_to_def)
next
  case False
  define ue where "ue = max \<lfloor>log 2 \<bar>r\<bar>\<rfloor> emin - int p + 1"
  have u: "ulp p emin r = 2 powi ue" by (simp add: ulp_def ue_def)
  have "real_of_int \<bar>m\<bar> < real_of_int (2 ^ p)" using m by (simp only: of_int_less_iff)
  then have "\<bar>real_of_int m\<bar> < 2 ^ p" by simp
  then have "\<bar>real_of_int m\<bar> * 2 powi e < 2 ^ p * 2 powi e"
    by (intro mult_strict_right_mono) simp_all
  then have "\<bar>r\<bar> < 2 powi (int p + e)"
    by (simp add: r abs_mult pow2_nat_mult)
  then have "\<lfloor>log 2 \<bar>r\<bar>\<rfloor> < int p + e" by (rule exponent_less [OF False])
  with e have ue: "ue \<le> e" by (simp add: ue_def)
  define M where "M = m * 2 ^ nat (e - ue)"
  have "real_of_int M = real_of_int m * 2 powi (e - ue)"
    using ue by (simp add: M_def pow2_int)
  then have q: "r / 2 powi ue = real_of_int M"
    by (simp add: r pow2_diff)
  have "real_of_int (round_even (r / 2 powi ue)) * 2 powi ue = r"
    unfolding q round_even_of_int using q by (simp add: field_simps)
  with fin show ?thesis
    unfolding round_to_nonzero [OF False] u by simp
qed

lemma round_to_abs_err:
  assumes r: "\<bar>r\<bar> \<le> 2 powi k" and k: "emin \<le> k" "k \<le> emax"
  shows "\<exists>v. round_to p emin emax r = Finite v \<and> \<bar>v - r\<bar> \<le> 2 powi (k - int p) \<and> \<bar>v\<bar> \<le> 2 powi k"
proof (cases "r = 0")
  case True
  then show ?thesis by (simp add: round_to_def)
next
  case False
  from round_to_le_pow [OF r k(2)] obtain v where
    v: "round_to p emin emax r = Finite v" "\<bar>v\<bar> \<le> 2 powi k" by blast
  define ue where "ue = max \<lfloor>log 2 \<bar>r\<bar>\<rfloor> emin - int p + 1"
  define u where "u = ulp p emin r"
  define n where "n = round_even (r / u)"
  have u: "u = 2 powi ue" by (simp add: u_def ulp_def ue_def)
  have upos: "0 < u" by (simp add: u)
  have "\<lfloor>log 2 \<bar>r\<bar>\<rfloor> \<le> k" using False r by (rule exponent_le)
  with k(1) have "ue \<le> k - int p + 1" by (simp add: ue_def)
  then have "(2::real) powi ue \<le> 2 powi (k - int p + 1)" by (simp only: pow2_le_iff)
  also have "\<dots> = 2 * 2 powi (k - int p)" by (simp add: pow2_add)
  finally have ub: "u / 2 \<le> 2 powi (k - int p)" by (simp add: u)
  have vn: "v = real_of_int n * u"
    using v(1) unfolding round_to_nonzero [OF False] n_def u_def by (simp split: if_splits)
  have "\<bar>real_of_int n - r / u\<bar> \<le> 1 / 2"
    using round_even_bounds [of "r / u"] unfolding n_def by linarith
  then have "\<bar>real_of_int n - r / u\<bar> * u \<le> 1 / 2 * u"
    using upos by (intro mult_right_mono) simp_all
  moreover have "\<bar>real_of_int n - r / u\<bar> * u = \<bar>v - r\<bar>"
  proof -
    have "(real_of_int n - r / u) * u = v - r" using upos by (simp add: vn field_simps)
    then have "\<bar>(real_of_int n - r / u) * u\<bar> = \<bar>v - r\<bar>" by simp
    then show ?thesis using upos by (simp add: abs_mult)
  qed
  ultimately have "\<bar>v - r\<bar> \<le> u / 2" by simp
  with ub have "\<bar>v - r\<bar> \<le> 2 powi (k - int p)" by linarith
  with v show ?thesis by blast
qed

lemma round_to_rel_err:
  assumes lo: "2 powi emin \<le> \<bar>r\<bar>" and hi: "\<bar>r\<bar> \<le> 2 powi emax"
  shows "\<exists>v. round_to p emin emax r = Finite v \<and> \<bar>v - r\<bar> \<le> \<bar>r\<bar> / 2 ^ p"
proof -
  have nz: "r \<noteq> 0" using lo by (rule pow2_le_abs_nonzero)
  from round_to_le_pow [OF hi order_refl] obtain v where
    v: "round_to p emin emax r = Finite v" by blast
  define E where "E = \<lfloor>log 2 \<bar>r\<bar>\<rfloor>"
  define u where "u = ulp p emin r"
  define n where "n = round_even (r / u)"
  have "emin \<le> E" unfolding E_def using lo by (rule exponent_ge)
  then have u: "u = 2 powi (E - int p + 1)" by (simp add: u_def ulp_def E_def max_def)
  have upos: "0 < u" by (simp add: u)
  have "(2::real) ^ p * 2 powi (E - int p + 1) = 2 * 2 powi E"
    using pow2_nat_mult [of p "E - int p + 1"] by (simp add: pow2_add mult.commute)
  then have "2 ^ p * u = 2 * 2 powi E" by (simp add: u)
  moreover have "2 powi E \<le> \<bar>r\<bar>" unfolding E_def by (rule exponent_bounds(1) [OF nz])
  ultimately have "2 ^ p * (u / 2) \<le> \<bar>r\<bar>" by simp
  then have ub: "u / 2 \<le> \<bar>r\<bar> / 2 ^ p"
    by (simp add: pos_le_divide_eq mult.commute)
  have vn: "v = real_of_int n * u"
    using v unfolding round_to_nonzero [OF nz] n_def u_def by (simp split: if_splits)
  have "\<bar>real_of_int n - r / u\<bar> \<le> 1 / 2"
    using round_even_bounds [of "r / u"] unfolding n_def by linarith
  then have "\<bar>real_of_int n - r / u\<bar> * u \<le> 1 / 2 * u"
    using upos by (intro mult_right_mono) simp_all
  moreover have "\<bar>real_of_int n - r / u\<bar> * u = \<bar>v - r\<bar>"
  proof -
    have "(real_of_int n - r / u) * u = v - r" using upos by (simp add: vn field_simps)
    then have "\<bar>(real_of_int n - r / u) * u\<bar> = \<bar>v - r\<bar>" by simp
    then show ?thesis using upos by (simp add: abs_mult)
  qed
  ultimately have "\<bar>v - r\<bar> \<le> u / 2" by simp
  with ub have "\<bar>v - r\<bar> \<le> \<bar>r\<bar> / 2 ^ p" by linarith
  with v show ?thesis by blast
qed

lemma round_to_eval:
  assumes lo: "2 powi E \<le> \<bar>r\<bar>" and hi: "\<bar>r\<bar> < 2 powi (E + 1)" and e: "emin \<le> E"
    and m: "round_even (r / 2 powi (E - int p + 1)) = m"
    and fin: "\<bar>real_of_int m * 2 powi (E - int p + 1)\<bar> < 2 powi (emax + 1)"
  shows "round_to p emin emax r = Finite (real_of_int m * 2 powi (E - int p + 1))"
proof -
  have nz: "r \<noteq> 0" using lo by (rule pow2_le_abs_nonzero)
  have "\<lfloor>log 2 \<bar>r\<bar>\<rfloor> < E + 1" using nz hi by (rule exponent_less)
  moreover have "E \<le> \<lfloor>log 2 \<bar>r\<bar>\<rfloor>" using lo by (rule exponent_ge)
  ultimately have "\<lfloor>log 2 \<bar>r\<bar>\<rfloor> = E" by simp
  with e have u: "ulp p emin r = 2 powi (E - int p + 1)" by (simp add: ulp_def max_def)
  from fin show ?thesis unfolding round_to_nonzero [OF nz] u m by simp
qed

lemma round32_le_pow:
  assumes "\<bar>r\<bar> \<le> 2 powi k" and "k \<le> 127"
  shows "\<exists>v. round32 r = Finite v \<and> \<bar>v\<bar> \<le> 2 powi k"
  unfolding round32_def using assms by (rule round_to_le_pow)

lemma round32_ge_pow:
  assumes "2 powi k \<le> r" and "- 149 \<le> k"
  shows "round32 r = PInf \<or> (\<exists>v. round32 r = Finite v \<and> 2 powi k \<le> v)"
  unfolding round32_def using assms by (intro round_to_ge_pow) simp_all

lemma round32_nonneg: "0 \<le> r \<Longrightarrow> round32 r = Finite v \<Longrightarrow> 0 \<le> v"
  unfolding round32_def by (rule round_to_nonneg)

lemma round32_zero: "round32 0 = Finite 0"
  by (simp add: round32_def round_to_def)

lemma round32_pow2:
  assumes "- 149 \<le> k" and "k \<le> 127"
  shows "round32 (2 powi k) = Finite (2 powi k)"
proof -
  have "\<bar>(2::real) powi k\<bar> \<le> 2 powi k" by simp
  from round32_le_pow [OF this assms(2)] obtain v where
    v: "round32 (2 powi k) = Finite v" "\<bar>v\<bar> \<le> 2 powi k" by blast
  from round32_ge_pow [OF order_refl assms(1)] v(1) have "2 powi k \<le> v" by auto
  with v show ?thesis by simp
qed

lemma round32_one: "round32 1 = Finite 1"
  using round32_pow2 [of 0] by simp

lemma round32_half: "round32 (1 / 2) = Finite (1 / 2)"
  using round32_pow2 [of "- 1"] by (simp add: power_int_minus field_simps)

lemma round64_half: "round64 (1 / 2) = Finite (1 / 2)"
proof -
  have a: "\<bar>1 / 2 :: real\<bar> \<le> 2 powi (- 1)" by (simp add: power_int_minus)
  have b: "2 powi (- 1) \<le> (1 / 2 :: real)" by (simp add: power_int_minus)
  from round_to_le_pow [OF a, of 1023 53 "- 1022"] obtain v where
    v: "round64 (1 / 2) = Finite v" "\<bar>v\<bar> \<le> 2 powi (- 1)"
    unfolding round64_def by auto
  from round_to_ge_pow [OF b, of "- 1022" 53 1023] v(1) have "2 powi (- 1) \<le> v"
    unfolding round64_def by auto
  with v show ?thesis by (simp add: power_int_minus)
qed

lemmas round_simps = round_even_of_int round32_zero round32_one round32_half round64_half

lemma round64_pow2:
  assumes "- 1022 \<le> k" and "k \<le> 1023"
  shows "round64 (2 powi k) = Finite (2 powi k)"
proof -
  have "\<bar>(2::real) powi k\<bar> \<le> 2 powi k" by simp
  from round_to_le_pow [OF this assms(2), of 53 "- 1022"] obtain v where
    v: "round64 (2 powi k) = Finite v" "\<bar>v\<bar> \<le> 2 powi k"
    unfolding round64_def by blast
  have "- 1022 - int 53 + 1 \<le> k" using assms(1) by simp
  from round_to_ge_pow [OF order_refl this, of 1023] v(1) have "2 powi k \<le> v"
    unfolding round64_def by auto
  with v show ?thesis by simp
qed

lemma round32_exact:
  assumes "r = real_of_int m * 2 powi e" and "\<bar>m\<bar> < 2 ^ 24" and "- 149 \<le> e"
    and "\<bar>r\<bar> < 2 powi 128"
  shows "round32 r = Finite r"
  unfolding round32_def using assms by (intro round_to_exact [where m = m and e = e]) simp_all

lemma round32_abs_err:
  assumes "\<bar>r\<bar> \<le> 2 powi k" and "- 126 \<le> k" and "k \<le> 127"
  shows "\<exists>v. round32 r = Finite v \<and> \<bar>v - r\<bar> \<le> 2 powi (k - 24) \<and> \<bar>v\<bar> \<le> 2 powi k"
  using round_to_abs_err [OF assms, of 24] unfolding round32_def by simp

lemma round32_int:
  assumes "\<bar>m\<bar> < 2 ^ 24"
  shows "round32 (of_int m) = Finite (of_int m)"
proof -
  have "real_of_int \<bar>m\<bar> < real_of_int (2 ^ 24)" using assms by (simp only: of_int_less_iff)
  then have "\<bar>real_of_int m\<bar> < 2 powi (127 + 1)" by simp
  moreover have "real_of_int m = of_int m * 2 powi 0" by simp
  ultimately show ?thesis
    unfolding round32_def using assms by (intro round_to_exact [where m = m and e = 0]) simp_all
qed

lemma round32_quarter: "round32 (1 / 4) = Finite (1 / 4)"
  using round32_pow2 [of "- 2"] by (simp add: power_int_minus field_simps)







lemma fadd32_NaN_left: "fadd32 NaN b = NaN"
  by (cases b) simp_all


subsection \<open>The Huber function\<close>









subsection \<open>The quantile midpoints\<close>

lemma tau_hat_init_nth:
  assumes "1 \<le> n" and "i < nat n"
  shows "projr (tau_hat_init n) ! i =
           fadd32 (linspace_entry (Finite 0) (Finite 1) (n + 1) (int i))
             (cast32 (round64 (0.5 / of_int n)))"
    and "length (projr (tau_hat_init n)) = nat n"
  using assms by (simp_all add: round_simps tau_hat_init_def linspace_def nth_butlast nat_add_distrib)

lemma tau_hat_init_Inr:
  assumes "1 \<le> n"
  shows "tau_hat_init n =
           Inr (map (\<lambda>i. fadd32 (linspace_entry (Finite 0) (Finite 1) (n + 1) (int i))
                           (cast32 (round64 (0.5 / of_int n)))) [0 ..< nat n])"
proof -
  have "butlast [0 ..< nat (n + 1)] = [0 ..< nat n]"
    using assms by (simp add: nat_add_distrib)
  then have "butlast (map (\<lambda>i. linspace_entry (Finite 0) (Finite 1) (n + 1) (int i))
                 [0 ..< nat (n + 1)]) =
             map (\<lambda>i. linspace_entry (Finite 0) (Finite 1) (n + 1) (int i)) [0 ..< nat n]"
    by (simp add: map_butlast [symmetric])
  with assms show ?thesis
    by (simp add: tau_hat_init_def linspace_def round_simps comp_def)
qed

lemma tau_entry_bound:
  fixes n i :: int
  assumes n: "1 \<le> n" "n < 2 ^ 20" and i: "0 \<le> i" "i < n"
  shows "\<exists>v. fadd32 (linspace_entry (Finite 0) (Finite 1) (n + 1) i)
                (cast32 (round64 (0.5 / of_int n))) = Finite v \<and>
             \<bar>v - (of_int i + 0.5) / of_int n\<bar> \<le> 2 powi (- 21)"
proof -
  define N where "N = real_of_int n"
  define eps where "eps = (2::real) powi (- 24)"
  have N1: "1 \<le> N" using n(1) by (simp add: N_def)
  have "real_of_int n < real_of_int (2 ^ 20)" using n(2) by (simp only: of_int_less_iff)
  then have N2: "N < 2 ^ 20" by (simp add: N_def)
  have Npos: "0 < N" using N1 by simp
  have eps: "eps = 1 / 16777216" by (simp add: eps_def power_int_minus field_simps)
  have iN: "0 \<le> real_of_int i" "real_of_int i + 1 \<le> N"
    using i by (simp_all add: N_def)
  have rn: "round32 (real_of_int (n + 1 - 1)) = Finite N"
    unfolding N_def using n by (simp add: round32_int)
  have invN: "1 / 2 ^ 20 \<le> 1 / N" "1 / N \<le> 1"
    using N1 N2 Npos by (simp_all add: field_simps)
  have lo: "2 powi (- 126) \<le> \<bar>1 / N\<bar>"
  proof -
    have "(2::real) powi (- 126) \<le> 2 powi (- 20)" by (simp only: pow2_le_iff)
    also have "\<dots> = 1 / 2 ^ 20" by (simp add: power_int_minus field_simps)
    finally show ?thesis using invN Npos by simp
  qed
  have hi: "\<bar>1 / N\<bar> \<le> 2 powi 127"
  proof -
    have "\<bar>1 / N\<bar> \<le> 1" using invN Npos by simp
    moreover have "(1::real) \<le> 2 powi 127" by simp
    ultimately show ?thesis by linarith
  qed
  from round_to_rel_err [OF lo hi, of 24] obtain st where
    st: "round32 (1 / N) = Finite st" "\<bar>st - 1 / N\<bar> \<le> \<bar>1 / N\<bar> / 2 ^ 24"
    unfolding round32_def by auto
  have ste: "\<bar>st - 1 / N\<bar> \<le> eps / N" using st(2) Npos by (simp add: eps)
  have st0: "0 \<le> st" using round32_nonneg [OF _ st(1)] Npos by simp
  have ch: "\<bar>0.5 / N\<bar> \<le> 2 powi (- 1)"
    using invN Npos by (simp add: power_int_minus field_simps)
  from round_to_abs_err [OF ch, of "- 1022" 1023 53] obtain c64 where
    c64: "round64 (0.5 / N) = Finite c64" "\<bar>c64 - 0.5 / N\<bar> \<le> 2 powi (- 1 - 53)"
      "\<bar>c64\<bar> \<le> 2 powi (- 1)"
    unfolding round64_def by auto
  from round32_abs_err [OF c64(3)] obtain c where
    c: "round32 c64 = Finite c" "\<bar>c - c64\<bar> \<le> 2 powi (- 1 - 24)"
    by auto
  have "(2::real) powi (- 1 - 53) \<le> eps / 2" "(2::real) powi (- 1 - 24) = eps / 2"
    by (simp_all add: eps power_int_minus field_simps)
  with c64(2) c(2) have ce: "\<bar>c - 0.5 / N\<bar> \<le> eps" by linarith
  have cast: "cast32 (round64 (0.5 / real_of_int n)) = Finite c"
    using c64(1) c(1) by (simp add: cast32_def N_def)
  have prod: "\<exists>p. round32 (st * real_of_int m) = Finite p \<and>
                  \<bar>p - real_of_int m / N\<bar> \<le> 3 * eps \<and> 0 \<le> p"
    if m: "0 \<le> m" "m \<le> n" for m
  proof -
    have mN: "0 \<le> real_of_int m" "real_of_int m \<le> N" using m by (simp_all add: N_def)
    have "\<bar>st - 1 / N\<bar> * real_of_int m \<le> eps / N * N"
      using ste mN by (intro mult_mono) simp_all
    then have "\<bar>st - 1 / N\<bar> * real_of_int m \<le> eps" using Npos by simp
    moreover have "\<bar>st * real_of_int m - real_of_int m / N\<bar> = \<bar>st - 1 / N\<bar> * real_of_int m"
    proof -
      have "st * real_of_int m - real_of_int m / N = (st - 1 / N) * real_of_int m"
        by (simp add: algebra_simps)
      then show ?thesis using mN by (simp add: abs_mult)
    qed
    ultimately have e1: "\<bar>st * real_of_int m - real_of_int m / N\<bar> \<le> eps" by simp
    have mq: "0 \<le> real_of_int m / N" "real_of_int m / N \<le> 1"
      using mN Npos by simp_all
    have "\<bar>st * real_of_int m\<bar> \<le> 2" using e1 mq eps by linarith
    then have "\<bar>st * real_of_int m\<bar> \<le> 2 powi 1" by simp
    from round32_abs_err [OF this] obtain p where
      p: "round32 (st * real_of_int m) = Finite p" "\<bar>p - st * real_of_int m\<bar> \<le> 2 powi (1 - 24)"
      by auto
    have "(2::real) powi (1 - 24) = 2 * eps" by (simp add: eps power_int_minus field_simps)
    with p(2) e1 have "\<bar>p - real_of_int m / N\<bar> \<le> 3 * eps" by linarith
    moreover have "0 \<le> p"
      using round32_nonneg [OF _ p(1)] st0 mN by simp
    ultimately show ?thesis using p(1) by blast
  qed
  have step: "fdiv32 (fsub32 (Finite 1) (Finite 0)) (round32 (real_of_int (n + 1 - 1))) = Finite st"
    using Npos st(1) unfolding rn by (simp add: fsub32_def round_simps)
  have ri: "round32 (real_of_int i) = Finite (real_of_int i)"
    using i n by (intro round32_int) simp
  have rj: "round32 (real_of_int (n + 1 - i - 1)) = Finite (real_of_int (n - i))"
  proof -
    have "round32 (real_of_int (n - i)) = Finite (real_of_int (n - i))"
      using i n by (intro round32_int) simp
    then show ?thesis by simp
  qed
  have entry: "\<exists>a. linspace_entry (Finite 0) (Finite 1) (n + 1) i = Finite a \<and>
                   \<bar>a - real_of_int i / N\<bar> \<le> 5 * eps"
  proof (cases "i < (n + 1) div 2")
    case True
    from prod [of i] i obtain p where
      p: "round32 (st * real_of_int i) = Finite p" "\<bar>p - real_of_int i / N\<bar> \<le> 3 * eps"
      by auto
    have iq: "0 \<le> real_of_int i / N" "real_of_int i / N \<le> 1"
      using iN Npos by simp_all
    have "\<bar>0 + p\<bar> \<le> 2" using p(2) iq eps by linarith
    then have "\<bar>0 + p\<bar> \<le> 2 powi 1" by simp
    from round32_abs_err [OF this] obtain a where
      a: "round32 (0 + p) = Finite a" "\<bar>a - (0 + p)\<bar> \<le> 2 powi (1 - 24)"
      by auto
    have "(2::real) powi (1 - 24) = 2 * eps" by (simp add: eps power_int_minus field_simps)
    with a(2) p(2) have "\<bar>a - real_of_int i / N\<bar> \<le> 5 * eps" by linarith
    moreover have "linspace_entry (Finite 0) (Finite 1) (n + 1) i = Finite a"
      unfolding linspace_entry_def Let_def step ri using True p(1) a(1) by simp
    ultimately show ?thesis by blast
  next
    case False
    from prod [of "n - i"] i obtain p where
      p: "round32 (st * real_of_int (n - i)) = Finite p"
        "\<bar>p - real_of_int (n - i) / N\<bar> \<le> 3 * eps" "0 \<le> p"
      by auto
    have jq: "real_of_int (n - i) / N = 1 - real_of_int i / N"
      using Npos by (simp add: N_def field_simps)
    have iq: "0 \<le> real_of_int i / N" "real_of_int i / N \<le> 1"
      using iN Npos by simp_all
    have "\<bar>1 + - p\<bar> \<le> 1" using p(2,3) jq iq eps by linarith
    then have "\<bar>1 + - p\<bar> \<le> 2 powi 0" by simp
    from round32_abs_err [OF this] obtain a where
      a: "round32 (1 + - p) = Finite a" "\<bar>a - (1 + - p)\<bar> \<le> 2 powi (0 - 24)"
      by auto
    have "(2::real) powi (0 - 24) = eps" by (simp add: eps power_int_minus field_simps)
    with a(2) p(2) jq have "\<bar>a - real_of_int i / N\<bar> \<le> 5 * eps" using eps by linarith
    moreover have "linspace_entry (Finite 0) (Finite 1) (n + 1) i = Finite a"
      unfolding linspace_entry_def Let_def step rj using False p(1) a(1)
      by (simp add: fsub32_def)
    ultimately show ?thesis by blast
  qed
  then obtain a where
    a: "linspace_entry (Finite 0) (Finite 1) (n + 1) i = Finite a"
      "\<bar>a - real_of_int i / N\<bar> \<le> 5 * eps"
    by blast
  have mid: "(real_of_int i + 0.5) / N = real_of_int i / N + 0.5 / N"
    by (simp add: add_divide_distrib)
  have midq: "0 \<le> (real_of_int i + 0.5) / N" "(real_of_int i + 0.5) / N \<le> 1"
    using iN Npos by simp_all
  have "\<bar>a + c\<bar> \<le> 2" using a(2) ce mid midq eps by linarith
  then have "\<bar>a + c\<bar> \<le> 2 powi 1" by simp
  from round32_abs_err [OF this] obtain v where
    v: "round32 (a + c) = Finite v" "\<bar>v - (a + c)\<bar> \<le> 2 powi (1 - 24)"
    by auto
  have "(2::real) powi (1 - 24) = 2 * eps" "(2::real) powi (- 21) = 8 * eps"
    by (simp_all add: eps power_int_minus field_simps)
  with v(2) a(2) ce mid have "\<bar>v - (real_of_int i + 0.5) / N\<bar> \<le> 2 powi (- 21)" by linarith
  moreover have "fadd32 (linspace_entry (Finite 0) (Finite 1) (n + 1) i)
      (cast32 (round64 (0.5 / real_of_int n))) = Finite v"
    unfolding a(1) cast using v(1) by simp
  ultimately show ?thesis unfolding N_def by blast
qed

lemma ev_step: "round32 (1 / 51) = Finite (10526881 / 536870912)"
  using round_to_eval [of "- 6" "1 / 51" "- 126" 24 10526881 127]
  by (simp add: round32_def round_even_def Let_def power_int_minus)

lemma ev_prod: "round32 (10526881 / 536870912 * 25) = Finite (4112063 / 8388608)"
  using round_to_eval [of "- 2" "10526881 / 536870912 * 25" "- 126" 24 16448252 127]
  by (simp add: round32_def round_even_def Let_def power_int_minus)

lemma ev_sum0: "round32 (0 + 4112063 / 8388608) = Finite (4112063 / 8388608)"
  using round32_exact [of "4112063 / 8388608" 4112063 "- 23"]
  by (simp add: power_int_minus)

lemma ev_c64: "round64 (0.5 / 51) = Finite (1412894000743685 / 144115188075855872)"
  using round_to_eval [of "- 7" "0.5 / 51" "- 1022" 53 5651576002974740 1023]
  by (simp add: round64_def round_even_def Let_def power_int_minus)

lemma ev_c: "round32 (1412894000743685 / 144115188075855872) = Finite (10526881 / 1073741824)"
  using round_to_eval [of "- 7" "1412894000743685 / 144115188075855872" "- 126" 24 10526881 127]
  by (simp add: round32_def round_even_def Let_def power_int_minus)

lemma ev_tau: "round32 (4112063 / 8388608 + 10526881 / 1073741824) = Finite (8388609 / 16777216)"
  using round_to_eval [of "- 1" "4112063 / 8388608 + 10526881 / 1073741824" "- 126" 24 8388609 127]
  by (simp add: round32_def round_even_def Let_def power_int_minus)

lemma ev_norm:
  "round32 (263172025 / 536870912) = Finite (4112063 / 8388608)"
  "round32 (4112063 / 8388608) = Finite (4112063 / 8388608)"
  "round64 (1 / 102) = Finite (1412894000743685 / 144115188075855872)"
  "round32 (536870945 / 1073741824) = Finite (8388609 / 16777216)"
  using ev_prod ev_sum0 ev_c64 ev_tau by simp_all

lemma entry_51_25: "projr (tau_hat_init 51) ! 25 = Finite (8388609 / 16777216)"
proof -
  have r51: "round32 51 = Finite 51" using round32_int [of 51] by simp
  have r25: "round32 25 = Finite 25" using round32_int [of 25] by simp
  have "linspace_entry (Finite 0) (Finite 1) (51 + 1) (int 25) = Finite (4112063 / 8388608)"
    unfolding linspace_entry_def Let_def
    by (simp add: fsub32_def round_simps r51 r25 ev_step ev_norm)
  moreover have "cast32 (round64 (0.5 / real_of_int 51)) = Finite (10526881 / 1073741824)"
    by (simp add: cast32_def ev_norm ev_c)
  ultimately show ?thesis
    unfolding tau_hat_init_nth(1) [of 51 25, simplified] by (simp add: ev_norm)
qed

lemma ev_last:
  "round32 16777216 = Finite 16777216"
  "round32 (1 / 16777216) = Finite (1 / 16777216)"
  "round32 (16777215 / 16777216) = Finite (16777215 / 16777216)"
  "round64 (1 / 33554432) = Finite (1 / 33554432)"
  "round32 (1 / 33554432) = Finite (1 / 33554432)"
  "round32 (33554431 / 33554432) = Finite 1"
proof -
  show "round32 16777216 = Finite 16777216" using round32_pow2 [of 24] by simp
  show "round32 (1 / 16777216) = Finite (1 / 16777216)"
    using round32_pow2 [of "- 24"] by (simp add: power_int_minus)
  show "round32 (16777215 / 16777216) = Finite (16777215 / 16777216)"
    using round32_exact [of "16777215 / 16777216" 16777215 "- 24"] by (simp add: power_int_minus)
  show "round64 (1 / 33554432) = Finite (1 / 33554432)"
    using round64_pow2 [of "- 25"] by (simp add: power_int_minus)
  show "round32 (1 / 33554432) = Finite (1 / 33554432)"
    using round32_pow2 [of "- 25"] by (simp add: power_int_minus)
  show "round32 (33554431 / 33554432) = Finite 1"
    using round_to_eval [of "- 1" "33554431 / 33554432" "- 126" 24 16777216 127]
    by (simp add: round32_def round_even_def Let_def power_int_minus)
qed

lemma entry_last: "projr (tau_hat_init 16777216) ! 16777215 = Finite 1"
proof -
  have "linspace_entry (Finite 0) (Finite 1) (16777216 + 1) (int 16777215) =
          Finite (16777215 / 16777216)"
    unfolding linspace_entry_def Let_def
    by (simp add: fsub32_def round_simps ev_last)
  moreover have "cast32 (round64 (0.5 / real_of_int 16777216)) = Finite (1 / 33554432)"
    by (simp add: cast32_def ev_last)
  ultimately show ?thesis
    unfolding tau_hat_init_nth(1) [of 16777216 16777215, simplified] by (simp add: ev_last)
qed

lemma ev_two:
  "round32 2 = Finite 2"
  "round64 (1 / 4) = Finite (1 / 4)"
  "round32 (3 / 4) = Finite (3 / 4)"
proof -
  show "round32 2 = Finite 2" using round32_pow2 [of 1] by simp
  show "round64 (1 / 4) = Finite (1 / 4)"
    using round64_pow2 [of "- 2"] by (simp add: power_int_minus)
  show "round32 (3 / 4) = Finite (3 / 4)"
    using round32_exact [of "3 / 4" 3 "- 2"] by (simp add: power_int_minus)
qed

lemma tau_hat_init_two: "tau_hat_init 2 = Inr [Finite (1 / 4), Finite (3 / 4)]"
  unfolding tau_hat_init_Inr [of 2, simplified] linspace_entry_def Let_def
  by (simp add: fsub32_def cast32_def round_simps ev_two round32_quarter upt_conv_Cons)

text \<open>
  Claim C8, as stated: for every \<open>num_quantiles \<ge> 1\<close> entry \<open>i\<close> of \<open>tau_hat\<close> equals
  \<open>(i + 0.5) / num_quantiles\<close>, the entries increase strictly and lie strictly inside
  (0, 1). For the default 51 quantiles entry 25 is \<open>1 / 2 + 1 / 2 ^ 24\<close>, not the midpoint
  \<open>1 / 2\<close>; for \<open>2 ^ 24\<close> quantiles the last entry is 1.
\<close>

theorem tau_hat_float_counterexample:
  "projr (tau_hat_init 51) ! 25 = Finite (1 / 2 + 1 / 2 ^ 24) \<and>
   ((25::real) + 0.5) / 51 = 1 / 2 \<and>
   projr (tau_hat_init (2 ^ 24)) ! (2 ^ 24 - 1) = Finite 1"
  using entry_51_25 entry_last by simp

text \<open>
  Claim C8, amended. For \<open>1 \<le> num_quantiles < 2 ^ 20\<close> the constructor's \<open>tau_hat\<close> has
  \<open>num_quantiles\<close> finite float32 entries, entry \<open>i\<close> is within \<open>2 powi (- 21)\<close> of
  \<open>(i + 0.5) / num_quantiles\<close>, the entries increase strictly and each lies strictly
  between 0 and 1.
\<close>

theorem tau_hat_float_midpoints:
  assumes n: "1 \<le> n" "n < 2 ^ 20"
  shows "\<exists>tau. tau_hat_init n = Inr tau \<and> length tau = nat n \<and>
           (\<forall>i < nat n. \<exists>v. tau ! i = Finite v \<and>
               \<bar>v - (real i + 0.5) / real_of_int n\<bar> \<le> 2 powi (- 21) \<and> 0 < v \<and> v < 1) \<and>
           (\<forall>i j. i < j \<and> j < nat n \<longrightarrow>
               (\<exists>a b. tau ! i = Finite a \<and> tau ! j = Finite b \<and> a < b))"
proof -
  define N where "N = real_of_int n"
  define h where "h = 0.5 / N"
  define d where "d = (1::real) / 2 ^ 21"
  define q where "q = (\<lambda>i::nat. real i / N)"
  define tau where "tau = map (\<lambda>i. fadd32 (linspace_entry (Finite 0) (Finite 1) (n + 1) (int i))
                           (cast32 (round64 (0.5 / of_int n)))) [0 ..< nat n]"
  have init: "tau_hat_init n = Inr tau"
    unfolding tau_def by (rule tau_hat_init_Inr [OF n(1)])
  have len: "length tau = nat n" by (simp add: tau_def)
  have N1: "1 \<le> N" using n(1) by (simp add: N_def)
  have "real_of_int n < real_of_int (2 ^ 20)" using n(2) by (simp only: of_int_less_iff)
  then have N2: "N < 2 ^ 20" by (simp add: N_def)
  have Npos: "0 < N" using N1 by simp
  have e21: "(2::real) powi (- 21) = d" by (simp add: d_def power_int_minus field_simps)
  have half: "d < h" using N2 Npos by (simp add: d_def h_def field_simps)
  have mid: "(real i + 0.5) / N = q i + h" for i
    by (simp add: q_def h_def add_divide_distrib)
  have succ: "q i + 2 * h \<le> q j" if "i < j" for i j
  proof -
    have "real i + 1 \<le> real j" using that by linarith
    then have "(real i + 1) / N \<le> real j / N" using Npos by (intro divide_right_mono) simp_all
    then show ?thesis by (simp add: q_def h_def add_divide_distrib)
  qed
  have top: "q i + 2 * h \<le> 1" if "i < nat n" for i
  proof -
    have "real i + 1 \<le> N" using that by (simp add: N_def)
    then have "(real i + 1) / N \<le> N / N" using Npos by (intro divide_right_mono) simp_all
    then show ?thesis using Npos by (simp add: q_def h_def add_divide_distrib)
  qed
  have bot: "0 \<le> q i" for i using Npos by (simp add: q_def)
  have entry: "\<exists>v. tau ! i = Finite v \<and> \<bar>v - (q i + h)\<bar> \<le> d"
    if "i < nat n" for i
  proof -
    from that have "0 \<le> int i" "int i < n" by simp_all
    from tau_entry_bound [OF n this] obtain v where
      v: "fadd32 (linspace_entry (Finite 0) (Finite 1) (n + 1) (int i))
            (cast32 (round64 (0.5 / of_int n))) = Finite v"
        "\<bar>v - (real_of_int (int i) + 0.5) / real_of_int n\<bar> \<le> 2 powi (- 21)"
      by blast
    have "tau ! i = Finite v" using that v(1) by (simp add: tau_def)
    moreover have "(real_of_int (int i) + 0.5) / real_of_int n = q i + h"
      using mid [of i] by (simp add: N_def)
    ultimately show ?thesis using v(2) unfolding e21 by auto
  qed
  have range: "\<exists>v. tau ! i = Finite v \<and> \<bar>v - (real i + 0.5) / real_of_int n\<bar> \<le> 2 powi (- 21) \<and>
                 0 < v \<and> v < 1"
    if "i < nat n" for i
  proof -
    from entry [OF that] obtain v where
      v: "tau ! i = Finite v" "\<bar>v - (q i + h)\<bar> \<le> d" by blast
    from v(2) bot [of i] half have "0 < v" by linarith
    moreover from v(2) top [OF that] half have "v < 1" by linarith
    moreover have "\<bar>v - (real i + 0.5) / real_of_int n\<bar> \<le> 2 powi (- 21)"
      using v(2) mid [of i] unfolding e21 N_def by simp
    ultimately show ?thesis using v(1) by blast
  qed
  have mono: "\<exists>a b. tau ! i = Finite a \<and> tau ! j = Finite b \<and> a < b"
    if "i < j" "j < nat n" for i j
  proof -
    from that have "i < nat n" by simp
    from entry [OF this] obtain a where
      a: "tau ! i = Finite a" "\<bar>a - (q i + h)\<bar> \<le> d" by blast
    from entry [OF that(2)] obtain b where
      b: "tau ! j = Finite b" "\<bar>b - (q j + h)\<bar> \<le> d" by blast
    from a(2) b(2) succ [OF that(1)] half have "a < b" by linarith
    with a(1) b(1) show ?thesis by blast
  qed
  from init len range mono show ?thesis by blast
qed

theorem tau_hat_float_midpoints_witness:
  "(1::int) \<le> 2 \<and> (2::int) < 2 ^ 20 \<and> tau_hat_init 2 = Inr [Finite (1 / 4), Finite (3 / 4)]"
proof -
  have h: "(1::int) \<le> 2" "(2::int) < 2 ^ 20" by simp_all
  from tau_hat_float_midpoints [OF h] obtain tau where
    init: "tau_hat_init 2 = Inr tau" and len: "length tau = nat 2"
    by blast
  from init have "tau = [Finite (1 / 4), Finite (3 / 4)]"
    unfolding tau_hat_init_two by simp
  with init h show ?thesis by simp
qed

subsection \<open>The training step: skipping, the schedule of beta, the two parameter sets\<close>

text \<open>
  Claim C4. When the buffer holds fewer transitions than \<open>batch_size\<close>, \<open>train_step\<close>
  returns the agent as it was: nothing is sampled, no parameter, priority or schedule
  changes.
\<close>

theorem train_step_skip:
  assumes "int (buffer_len ext (replay_buffer self)) < batch_size self"
  shows "train_step ext self = self"
  using assms by (simp add: train_step_def)

theorem train_step_skip_witness:
  "int (buffer_len ex_ext (replay_buffer (ex_agent []))) < batch_size (ex_agent []) \<and>
   train_step ex_ext (ex_agent []) = ex_agent []"
proof -
  have h: "int (buffer_len ex_ext (replay_buffer (ex_agent []))) < batch_size (ex_agent [])"
    by (simp add: ex_ext_def ex_agent_def)
  from h train_step_skip [OF h] show ?thesis by simp
qed

lemma train_step_beta_run:
  assumes "\<not> int (buffer_len ext (replay_buffer self)) < batch_size self"
  shows "beta (train_step ext self) = min 1 (beta self + beta_increment self)"
  using assms by (simp add: train_step_def Let_def split_def)

text \<open>
  Claim C3, as stated: every call of \<open>train_step\<close> moves \<open>beta\<close> to
  \<open>min 1 (beta + beta_increment)\<close>, also when the step is skipped. On an empty buffer the
  step is skipped and \<open>beta\<close> stays at 0.4.
\<close>

theorem train_step_beta_counterexample:
  "beta (train_step ex_ext (ex_agent [])) = 4 / 10 \<and>
   min 1 (beta (ex_agent []) + beta_increment (ex_agent [])) = 401 / 1000 \<and>
   beta (train_step ex_ext (ex_agent [])) \<noteq>
     min 1 (beta (ex_agent []) + beta_increment (ex_agent []))"
  by (simp add: train_step_def ex_ext_def ex_agent_def)

text \<open>
  Claim C3, amended. A skipped call leaves \<open>beta\<close> unchanged. A call that finds at least
  \<open>batch_size\<close> transitions sets \<open>beta\<close> to \<open>min 1 (beta + beta_increment)\<close>, which is at
  most 1 and, for a non-negative increment and \<open>beta \<le> 1\<close>, not below the old value.
\<close>

theorem train_step_beta:
  "(int (buffer_len ext (replay_buffer self)) < batch_size self \<longrightarrow>
      beta (train_step ext self) = beta self) \<and>
   (batch_size self \<le> int (buffer_len ext (replay_buffer self)) \<longrightarrow>
      beta (train_step ext self) = min 1 (beta self + beta_increment self) \<and>
      beta (train_step ext self) \<le> 1 \<and>
      (0 \<le> beta_increment self \<and> beta self \<le> 1 \<longrightarrow> beta self \<le> beta (train_step ext self)))"
proof -
  have skip: "beta (train_step ext self) = beta self"
    if "int (buffer_len ext (replay_buffer self)) < batch_size self"
    using that by (simp add: train_step_def)
  have run: "beta (train_step ext self) = min 1 (beta self + beta_increment self)"
    if "batch_size self \<le> int (buffer_len ext (replay_buffer self))"
    using that by (intro train_step_beta_run) simp
  from skip run show ?thesis by auto
qed

theorem train_step_beta_witness:
  "int (buffer_len ex_ext (replay_buffer (ex_agent []))) < batch_size (ex_agent []) \<and>
   beta (train_step ex_ext (ex_agent [])) = 4 / 10 \<and>
   batch_size (ex_agent [(1, 0, 1, 2, False)])
     \<le> int (buffer_len ex_ext (replay_buffer (ex_agent [(1, 0, 1, 2, False)]))) \<and>
   0 \<le> beta_increment (ex_agent [(1, 0, 1, 2, False)]) \<and>
   beta (ex_agent [(1, 0, 1, 2, False)]) \<le> 1 \<and>
   beta (train_step ex_ext (ex_agent [(1, 0, 1, 2, False)])) = 401 / 1000"
proof -
  let ?a = "ex_agent [(1, 0, 1, 2, False)]"
  have h1: "int (buffer_len ex_ext (replay_buffer (ex_agent []))) < batch_size (ex_agent [])"
    by (simp add: ex_ext_def ex_agent_def)
  have h2: "batch_size ?a \<le> int (buffer_len ex_ext (replay_buffer ?a))"
    by (simp add: ex_ext_def ex_agent_def)
  have h3: "0 \<le> beta_increment ?a \<and> beta ?a \<le> 1"
    by (simp add: ex_agent_def)
  from train_step_beta [of ex_ext "ex_agent []"] h1
  have "beta (train_step ex_ext (ex_agent [])) = beta (ex_agent [])" by blast
  then have b1: "beta (train_step ex_ext (ex_agent [])) = 4 / 10"
    by (simp add: ex_agent_def)
  from train_step_beta [of ex_ext ?a] h2
  have "beta (train_step ex_ext ?a) = min 1 (beta ?a + beta_increment ?a)"
    by blast
  then have b2: "beta (train_step ex_ext ?a) = 401 / 1000"
    by (simp add: ex_agent_def)
  from h1 h2 h3 b1 b2 show ?thesis by blast
qed

text \<open>
  Claim C9. \<open>train_step\<close> leaves the target parameters as they were, whether it runs or
  skips; \<open>update_target_network\<close> overwrites the target parameters with the online ones and
  leaves the online ones alone, so that afterwards the two networks agree on every input.
\<close>

theorem parameter_frame:
  "target_net (train_step ext self) = target_net self \<and>
   target_net (update_target_network self) = online_net self \<and>
   online_net (update_target_network self) = online_net self \<and>
   forward ext (target_net (update_target_network self)) imgs =
     forward ext (online_net (update_target_network self)) imgs"
  by (simp add: train_step_def update_target_network_def Let_def split_def)

subsection \<open>Action selection\<close>

text \<open>
  Claim C7, as stated: with an unrecognised risk preference \<open>choose_action\<close> fails, for
  every state. With \<open>epsilon = 1\<close> and the draw \<open>0.5\<close> the exploration branch returns the
  sampled action and the risk preference is never looked at.
\<close>

theorem choose_action_invalid_counterexample:
  "epsilon (ex_agent []) = 1 \<and>
   choose_action ex_ext (1 / 2) 1 (ex_agent []) 0 ''cautious'' = Inr 1 \<and>
   choose_action ex_ext (1 / 2) 1 (ex_agent []) 0 ''cautious'' \<noteq> Inl ValueError"
  by (simp add: choose_action_def ex_agent_def)

text \<open>
  Claim C7, amended. With an unrecognised risk preference, \<open>choose_action\<close> raises
  ValueError whenever the draw is not below \<open>epsilon\<close> (the greedy branch), whatever the
  state and the network's output; when the draw is below \<open>epsilon\<close> it returns the sampled
  action.
\<close>

theorem choose_action_invalid:
  assumes "risk_preference \<noteq> ''neutral''" and "risk_preference \<noteq> ''risk-averse''"
    and "risk_preference \<noteq> ''risk-seeking''"
  shows "(\<not> u < epsilon self \<longrightarrow>
            choose_action ext u sampled self state risk_preference = Inl ValueError) \<and>
         (u < epsilon self \<longrightarrow>
            choose_action ext u sampled self state risk_preference = Inr sampled)"
  using assms by (simp add: choose_action_def q_values_def)

theorem choose_action_invalid_witness:
  "''cautious'' \<noteq> ''neutral'' \<and> ''cautious'' \<noteq> ''risk-averse'' \<and>
   ''cautious'' \<noteq> ''risk-seeking'' \<and>
   \<not> 0 < epsilon ((ex_agent [])\<lparr>epsilon := 0\<rparr>) \<and>
   choose_action ex_ext 0 1 ((ex_agent [])\<lparr>epsilon := 0\<rparr>) 1 ''cautious'' = Inl ValueError \<and>
   1 / 2 < epsilon (ex_agent []) \<and>
   choose_action ex_ext (1 / 2) 1 (ex_agent []) 1 ''cautious'' = Inr 1"
proof -
  have r: "''cautious'' \<noteq> ''neutral''" "''cautious'' \<noteq> ''risk-averse''"
    "''cautious'' \<noteq> ''risk-seeking''"
    by simp_all
  have g: "\<not> 0 < epsilon ((ex_agent [])\<lparr>epsilon := 0\<rparr>)" by simp
  have e: "1 / 2 < epsilon (ex_agent [])" by (simp add: ex_agent_def)
  from choose_action_invalid [OF r, of 0 "(ex_agent [])\<lparr>epsilon := 0\<rparr>" ex_ext 1 1] g
  have a: "choose_action ex_ext 0 1 ((ex_agent [])\<lparr>epsilon := 0\<rparr>) 1 ''cautious'' = Inl ValueError"
    by blast
  from choose_action_invalid [OF r, of "1 / 2" "ex_agent []" ex_ext 1 1] e
  have b: "choose_action ex_ext (1 / 2) 1 (ex_agent []) 1 ''cautious'' = Inr 1"
    by blast
  from r g e a b show ?thesis by blast
qed

lemma argmax_scan_first_max:
  assumes "length pre = i" and "best_i < i" and "pre ! best_i = best"
    and "\<forall>j < i. pre ! j \<le> best" and "\<forall>j < best_i. pre ! j < best"
  shows "argmax_scan xs i best_i best < i + length xs \<and>
         (\<forall>j < i + length xs. (pre @ xs) ! j \<le> (pre @ xs) ! argmax_scan xs i best_i best) \<and>
         (\<forall>j < argmax_scan xs i best_i best.
            (pre @ xs) ! j < (pre @ xs) ! argmax_scan xs i best_i best)"
  using assms
proof (induction xs arbitrary: pre i best_i best)
  case Nil
  then show ?case by simp
next
  case (Cons x xs)
  show ?case
  proof (cases "best < x")
    case True
    have len: "length (pre @ [x]) = Suc i" using Cons.prems by simp
    have at: "(pre @ [x]) ! i = x" using Cons.prems by (simp add: nth_append)
    have le: "\<forall>j < Suc i. (pre @ [x]) ! j \<le> x"
      using Cons.prems True by (auto simp add: nth_append less_Suc_eq)
    have lt: "\<forall>j < i. (pre @ [x]) ! j < x"
      using Cons.prems True by (auto simp add: nth_append)
    from Cons.IH [OF len _ at le lt, of ] True show ?thesis by simp
  next
    case False
    have len: "length (pre @ [x]) = Suc i" using Cons.prems by simp
    have bi: "best_i < Suc i" using Cons.prems by simp
    have at: "(pre @ [x]) ! best_i = best" using Cons.prems by (simp add: nth_append)
    have le: "\<forall>j < Suc i. (pre @ [x]) ! j \<le> best"
      using Cons.prems False by (auto simp add: nth_append less_Suc_eq)
    have lt: "\<forall>j < best_i. (pre @ [x]) ! j < best"
      using Cons.prems by (auto simp add: nth_append)
    from Cons.IH [OF len bi at le lt] False show ?thesis by simp
  qed
qed

lemma argmax_first_props:
  assumes "xs \<noteq> []"
  shows "argmax_first xs < length xs \<and>
         (\<forall>j < length xs. xs ! j \<le> xs ! argmax_first xs) \<and>
         (\<forall>j < argmax_first xs. xs ! j < xs ! argmax_first xs)"
proof -
  from assms obtain x rest where xs: "xs = x # rest" by (cases xs) auto
  have "argmax_scan rest 1 0 x < 1 + length rest \<and>
         (\<forall>j < 1 + length rest. ([x] @ rest) ! j \<le> ([x] @ rest) ! argmax_scan rest 1 0 x) \<and>
         (\<forall>j < argmax_scan rest 1 0 x.
            ([x] @ rest) ! j < ([x] @ rest) ! argmax_scan rest 1 0 x)"
    by (rule argmax_scan_first_max) simp_all
  with xs show ?thesis by (simp add: argmax_first_def)
qed


lemma quantile_t_Inr:
  assumes "0 \<le> q" and "q \<le> 1" and "row \<noteq> []"
  shows "\<exists>v. quantile_t q row = Inr v"
  using assms by (simp add: quantile_t_def Let_def)

lemma quantile_rows_Inr:
  assumes "0 \<le> q" and "q \<le> 1" and "\<forall>row \<in> set rows. row \<noteq> []"
  shows "\<exists>vs. quantile_rows q rows = Inr vs \<and> length vs = length rows"
  using assms(3)
proof (induction rows)
  case Nil
  then show ?case by simp
next
  case (Cons row rows)
  then obtain vs where vs: "quantile_rows q rows = Inr vs" "length vs = length rows"
    by auto
  from Cons.prems have "row \<noteq> []" by simp
  from quantile_t_Inr [OF assms(1,2) this] obtain v where "quantile_t q row = Inr v" ..
  with vs show ?case by simp
qed

lemma q_values_single:
  assumes "risk_preference \<in> {''neutral'', ''risk-averse'', ''risk-seeking''}"
    and "\<forall>row \<in> set quantiles. row \<noteq> []"
  shows "\<exists>qv. q_values risk_preference [quantiles] = Inr [qv] \<and> length qv = length quantiles"
proof -
  consider "risk_preference = ''neutral''" | "risk_preference = ''risk-averse''"
    | "risk_preference = ''risk-seeking''"
    using assms(1) by blast
  then show ?thesis
  proof cases
    case 1
    then show ?thesis by (simp add: q_values_def)
  next
    case 2
    have "\<exists>vs. quantile_rows 0.1 quantiles = Inr vs \<and> length vs = length quantiles"
      by (rule quantile_rows_Inr [OF _ _ assms(2)]) simp_all
    with 2 show ?thesis by (auto simp add: q_values_def)
  next
    case 3
    have "\<exists>vs. quantile_rows 0.9 quantiles = Inr vs \<and> length vs = length quantiles"
      by (rule quantile_rows_Inr [OF _ _ assms(2)]) simp_all
    with 3 show ?thesis by (auto simp add: q_values_def)
  qed
qed

text \<open>
  Claim C6. With \<open>epsilon = 0\<close> the result of \<open>choose_action\<close> does not depend on the
  random draw or on what the environment would sample: two calls on the same state and
  risk preference agree. For a recognised risk preference and a network output of
  \<open>num_actions \<ge> 1\<close> non-empty rows, the result is an action index below \<open>num_actions\<close>
  whose reduced scalar is maximal, and every earlier index has a strictly smaller scalar.
\<close>

theorem choose_action_greedy:
  assumes eps: "epsilon self = 0" and u: "0 \<le> u" "0 \<le> u'"
  shows "choose_action ext u sampled self state risk_preference =
           choose_action ext u' sampled' self state risk_preference \<and>
         (risk_preference \<in> {''neutral'', ''risk-averse'', ''risk-seeking''} \<and>
          forward ext (online_net self) [state] = [quantiles] \<and>
          length quantiles = num_actions self \<and> 0 < num_actions self \<and>
          (\<forall>row \<in> set quantiles. row \<noteq> []) \<longrightarrow>
          (\<exists>a qv. choose_action ext u sampled self state risk_preference = Inr a \<and>
             a < num_actions self \<and>
             q_values risk_preference [quantiles] = Inr [qv] \<and>
             length qv = num_actions self \<and>
             (\<forall>j < num_actions self. qv ! j \<le> qv ! a) \<and>
             (\<forall>j < a. qv ! j < qv ! a)))"
proof (intro conjI impI)
  show "choose_action ext u sampled self state risk_preference =
          choose_action ext u' sampled' self state risk_preference"
    using eps u by (simp add: choose_action_def)
next
  assume h: "risk_preference \<in> {''neutral'', ''risk-averse'', ''risk-seeking''} \<and>
          forward ext (online_net self) [state] = [quantiles] \<and>
          length quantiles = num_actions self \<and> 0 < num_actions self \<and>
          (\<forall>row \<in> set quantiles. row \<noteq> [])"
  then obtain qv where qv: "q_values risk_preference [quantiles] = Inr [qv]"
    "length qv = length quantiles"
    using q_values_single [of risk_preference quantiles] by blast
  with h have ne: "qv \<noteq> []" by auto
  have ca: "choose_action ext u sampled self state risk_preference = Inr (argmax_first qv)"
    using eps u h qv ne by (simp add: choose_action_def argmax_t_def)
  from argmax_first_props [OF ne] qv h ca
  show "\<exists>a qv. choose_action ext u sampled self state risk_preference = Inr a \<and>
             a < num_actions self \<and>
             q_values risk_preference [quantiles] = Inr [qv] \<and>
             length qv = num_actions self \<and>
             (\<forall>j < num_actions self. qv ! j \<le> qv ! a) \<and>
             (\<forall>j < a. qv ! j < qv ! a)"
    by auto
qed

theorem choose_action_greedy_witness:
  "epsilon ex_greedy = 0 \<and> (0::real) \<le> 1 / 4 \<and> (0::real) \<le> 3 / 4 \<and>
   ''neutral'' \<in> {''neutral'', ''risk-averse'', ''risk-seeking''} \<and>
   forward ex_ext (online_net ex_greedy) [1 / 2] = [[[1, 2], [1 / 2, 5 / 2]]] \<and>
   length [[1, 2], [1 / 2, 5 / 2 :: real]] = num_actions ex_greedy \<and>
   0 < num_actions ex_greedy \<and>
   [1, 2 :: real] \<noteq> [] \<and> [1 / 2, 5 / 2 :: real] \<noteq> [] \<and>
   q_values ''neutral'' [[[1, 2], [1 / 2, 5 / 2]]] = Inr [[3 / 2, 3 / 2]] \<and>
   choose_action ex_ext (1 / 4) 1 ex_greedy (1 / 2) ''neutral'' = Inr 0 \<and>
   choose_action ex_ext (3 / 4) 0 ex_greedy (1 / 2) ''neutral'' = Inr 0"
proof -
  let ?qs = "[[1, 2], [1 / 2, 5 / 2 :: real]]"
  have eps: "epsilon ex_greedy = 0" by (simp add: ex_greedy_def)
  have u: "(0::real) \<le> 1 / 4" "(0::real) \<le> 3 / 4" by simp_all
  have rp: "''neutral'' \<in> {''neutral'', ''risk-averse'', ''risk-seeking''}" by simp
  have out: "forward ex_ext (online_net ex_greedy) [1 / 2] = [?qs]"
    by (simp add: ex_ext_def ex_greedy_def ex_agent_def)
  have shape: "length ?qs = num_actions ex_greedy" "0 < num_actions ex_greedy"
    "\<forall>row \<in> set ?qs. row \<noteq> []"
    by (simp_all add: ex_greedy_def ex_agent_def)
  have qv: "q_values ''neutral'' [?qs] = Inr [[3 / 2, 3 / 2]]"
    by (simp add: q_values_def mean_t_def)
  note g = choose_action_greedy [OF eps u, of ex_ext 1 "1 / 2" "''neutral''" 0 ?qs]
  from g have same: "choose_action ex_ext (1 / 4) 1 ex_greedy (1 / 2) ''neutral'' =
      choose_action ex_ext (3 / 4) 0 ex_greedy (1 / 2) ''neutral''"
    by blast
  from g rp out shape obtain a qv' where
    a: "choose_action ex_ext (1 / 4) 1 ex_greedy (1 / 2) ''neutral'' = Inr a"
      "a < num_actions ex_greedy"
      "q_values ''neutral'' [?qs] = Inr [qv']"
      "\<forall>j < a. qv' ! j < qv' ! a"
    by blast
  from a(3) qv have qv': "qv' = [3 / 2, 3 / 2]" by simp
  have "a = 0"
  proof (rule ccontr)
    assume "a \<noteq> 0"
    then have "0 < a" by simp
    with a(4) have "qv' ! 0 < qv' ! a" by blast
    moreover from a(2) \<open>0 < a\<close> have "a = 1" by (simp add: ex_greedy_def ex_agent_def)
    ultimately show False using qv' by simp
  qed
  with a(1) same eps u rp out shape qv show ?thesis by simp
qed

subsection \<open>The Bellman targets\<close>

text \<open>
  Claim C2. For a batch whose fields and network outputs have one length, and a batch
  element \<open>b\<close> on which both networks give the same positive number of actions with
  \<open>num_quantiles\<close> quantiles each: the action \<open>best\<close> is the first maximiser of the online
  network's per-action quantile mean on the next state, the target row is
  \<open>reward + (1 - done) * gamma * q\<close> for each quantile \<open>q\<close> of the target network at
  \<open>best\<close>, and for a terminal transition it is the reward repeated \<open>num_quantiles\<close> times,
  whatever the target network returns.
\<close>

theorem bellman_targets:
  assumes len: "length (rewards batch) = length (next_states batch)"
      "length (dones batch) = length (next_states batch)"
      "length (forward ext (online_net self) (next_states batch)) = length (next_states batch)"
      "length (forward ext (target_net self) (next_states batch)) = length (next_states batch)"
    and b: "b < length (next_states batch)"
    and acts: "forward ext (online_net self) (next_states batch) ! b \<noteq> []"
      "length (forward ext (target_net self) (next_states batch) ! b) =
         length (forward ext (online_net self) (next_states batch) ! b)"
    and quants: "\<forall>row \<in> set (forward ext (target_net self) (next_states batch) ! b).
         length row = nat (num_quantiles self)"
  shows "\<exists>best. best = argmax_first (map mean_t (forward ext (online_net self) (next_states batch) ! b)) \<and>
           best < length (forward ext (online_net self) (next_states batch) ! b) \<and>
           (\<forall>a < length (forward ext (online_net self) (next_states batch) ! b).
              mean_t (forward ext (online_net self) (next_states batch) ! b ! a)
                \<le> mean_t (forward ext (online_net self) (next_states batch) ! b ! best)) \<and>
           targets ext self batch ! b =
             map (\<lambda>q. rewards batch ! b +
                       (1 - (if dones batch ! b then 1 else 0)) * gamma self * q)
               (forward ext (target_net self) (next_states batch) ! b ! best) \<and>
           (dones batch ! b \<longrightarrow>
              targets ext self batch ! b = replicate (nat (num_quantiles self)) (rewards batch ! b))"
proof -
  define nqo where "nqo = forward ext (online_net self) (next_states batch)"
  define nqt where "nqt = forward ext (target_net self) (next_states batch)"
  define best where "best = argmax_first (map mean_t (nqo ! b))"
  have ne: "map mean_t (nqo ! b) \<noteq> []" using acts(1) by (simp add: nqo_def)
  from argmax_first_props [OF ne]
  have lt: "best < length (map mean_t (nqo ! b))"
    and mx: "\<forall>a < length (map mean_t (nqo ! b)).
               map mean_t (nqo ! b) ! a \<le> map mean_t (nqo ! b) ! best"
    unfolding best_def by blast+
  from lt have best_lt: "best < length (nqo ! b)" by simp
  have best_max: "\<forall>a < length (nqo ! b). mean_t (nqo ! b ! a) \<le> mean_t (nqo ! b ! best)"
  proof (intro allI impI)
    fix a assume a: "a < length (nqo ! b)"
    then have "a < length (map mean_t (nqo ! b))" by simp
    with mx have "map mean_t (nqo ! b) ! a \<le> map mean_t (nqo ! b) ! best" by blast
    with a best_lt show "mean_t (nqo ! b ! a) \<le> mean_t (nqo ! b ! best)" by simp
  qed
  from best_lt acts(2) have "nqt ! b ! best \<in> set (nqt ! b)"
    by (simp add: nqo_def nqt_def)
  with quants have row_len: "length (nqt ! b ! best) = nat (num_quantiles self)"
    by (simp add: nqt_def)
  have tg: "targets ext self batch ! b =
      map (\<lambda>q. rewards batch ! b + (1 - (if dones batch ! b then 1 else 0)) * gamma self * q)
        (nqt ! b ! best)"
    using len b row_len
    by (simp add: targets_def gather_dim1_def Let_def nqo_def nqt_def best_def)
  have terminal: "targets ext self batch ! b = replicate (nat (num_quantiles self)) (rewards batch ! b)"
    if "dones batch ! b"
    using that row_len by (simp add: tg map_replicate_const)
  from best_lt best_max tg terminal show ?thesis
    unfolding nqo_def nqt_def best_def by blast
qed

theorem bellman_targets_witness:
  "length (rewards ex_batch) = length (next_states ex_batch) \<and>
   length (dones ex_batch) = length (next_states ex_batch) \<and>
   forward ex_ext (online_net (ex_agent [])) (next_states ex_batch) =
     [[[4, 5], [2, 4]], [[6, 7], [3, 5]]] \<and>
   forward ex_ext (target_net (ex_agent [])) (next_states ex_batch) =
     [[[6, 7], [2, 4]], [[9, 10], [3, 5]]] \<and>
   1 < length (next_states ex_batch) \<and> nat (num_quantiles (ex_agent [])) = 2 \<and>
   dones ex_batch ! 1 \<and> rewards ex_batch ! 1 = 5 \<and>
   targets ex_ext (ex_agent []) ex_batch ! 1 = [5, 5]"
proof -
  let ?a = "ex_agent []"
  have nqo: "forward ex_ext (online_net ?a) (next_states ex_batch) =
      [[[4, 5], [2, 4]], [[6, 7], [3, 5]]]"
    by (simp add: ex_batch_def ex_sample_def ex_ext_def ex_agent_def)
  have nqt: "forward ex_ext (target_net ?a) (next_states ex_batch) =
      [[[6, 7], [2, 4]], [[9, 10], [3, 5]]]"
    by (simp add: ex_batch_def ex_sample_def ex_ext_def ex_agent_def)
  have len: "length (rewards ex_batch) = length (next_states ex_batch)"
    "length (dones ex_batch) = length (next_states ex_batch)"
    "length (forward ex_ext (online_net ?a) (next_states ex_batch)) = length (next_states ex_batch)"
    "length (forward ex_ext (target_net ?a) (next_states ex_batch)) = length (next_states ex_batch)"
    by (simp_all add: ex_batch_def ex_sample_def ex_ext_def)
  have b: "1 < length (next_states ex_batch)"
    by (simp add: ex_batch_def ex_sample_def)
  have n: "nat (num_quantiles ?a) = 2" by (simp add: ex_agent_def)
  have acts: "forward ex_ext (online_net ?a) (next_states ex_batch) ! 1 \<noteq> []"
    "length (forward ex_ext (target_net ?a) (next_states ex_batch) ! 1) =
       length (forward ex_ext (online_net ?a) (next_states ex_batch) ! 1)"
    by (simp_all add: nqo nqt)
  have quants: "\<forall>row \<in> set (forward ex_ext (target_net ?a) (next_states ex_batch) ! 1).
      length row = nat (num_quantiles ?a)"
    by (simp add: nqt n)
  have d: "dones ex_batch ! 1" and r: "rewards ex_batch ! 1 = 5"
    by (simp_all add: ex_batch_def ex_sample_def)
  from bellman_targets [OF len b acts quants] d
  have "targets ex_ext ?a ex_batch ! 1 = replicate (nat (num_quantiles ?a)) (rewards ex_batch ! 1)"
    by blast
  with r have "targets ex_ext ?a ex_batch ! 1 = replicate (nat (num_quantiles ?a)) 5"
    by simp
  then have "targets ex_ext ?a ex_batch ! 1 = [5, 5]"
    by (simp add: n numeral_2_eq_2)
  with len nqo nqt b n d r show ?thesis by simp
qed

subsection \<open>The risk-sensitive reductions\<close>

text \<open>
  Claim C5, as stated: for any quantile vector the 10th percentile is at most the mean,
  which is at most the 90th percentile. For ten zeros and one entry 110 the mean is 10 and
  the 90th percentile is 0; for one entry -110 and ten zeros the 10th percentile is 0 and
  the mean is -10.
\<close>

theorem risk_ordering_counterexample:
  "q_values ''neutral'' [[[0, 0, 0, 0, 0, 0, 0, 0, 0, 0, 110]]] = Inr [[10]] \<and>
   q_values ''risk-seeking'' [[[0, 0, 0, 0, 0, 0, 0, 0, 0, 0, 110]]] = Inr [[0]] \<and>
   q_values ''risk-averse'' [[[- 110, 0, 0, 0, 0, 0, 0, 0, 0, 0, 0]]] = Inr [[0]] \<and>
   q_values ''neutral'' [[[- 110, 0, 0, 0, 0, 0, 0, 0, 0, 0, 0]]] = Inr [[- 10]] \<and>
   \<not> (10 :: real) \<le> 0 \<and> \<not> (0 :: real) \<le> - 10"
  by (simp add: q_values_def quantile_t_def mean_t_def)

lemma interpolate_between:
  fixes lo hi w :: real
  assumes "lo \<le> hi" and "0 \<le> w" and "w \<le> 1"
  shows "lo \<le> lo + w * (hi - lo)" and "lo + w * (hi - lo) \<le> hi"
proof -
  from assms show "lo \<le> lo + w * (hi - lo)" by simp
  have "w * (hi - lo) \<le> 1 * (hi - lo)"
    using assms by (intro mult_right_mono) simp_all
  then show "lo + w * (hi - lo) \<le> hi" by simp
qed

lemma interpolate_mono:
  fixes s :: "real list"
  assumes srt: "sorted s" and r: "0 \<le> r1" "r1 \<le> r2" "r2 \<le> real (length s - 1)"
    and ne: "s \<noteq> []"
  shows "s ! nat \<lfloor>r1\<rfloor> + (r1 - real (nat \<lfloor>r1\<rfloor>)) * (s ! nat \<lceil>r1\<rceil> - s ! nat \<lfloor>r1\<rfloor>)
       \<le> s ! nat \<lfloor>r2\<rfloor> + (r2 - real (nat \<lfloor>r2\<rfloor>)) * (s ! nat \<lceil>r2\<rceil> - s ! nat \<lfloor>r2\<rfloor>)"
proof -
  have nn: "0 \<le> r2" using r by simp
  have f1: "0 \<le> \<lfloor>r1\<rfloor>" and f2: "0 \<le> \<lfloor>r2\<rfloor>" using r nn by simp_all
  have c2: "\<lceil>r2\<rceil> \<le> int (length s - 1)" using r(3) by (simp add: ceiling_le_iff)
  have fc1: "\<lfloor>r1\<rfloor> \<le> \<lceil>r1\<rceil>" and fc2: "\<lfloor>r2\<rfloor> \<le> \<lceil>r2\<rceil>" by linarith+
  have ff: "\<lfloor>r1\<rfloor> \<le> \<lfloor>r2\<rfloor>" and cc: "\<lceil>r1\<rceil> \<le> \<lceil>r2\<rceil>"
    using r(2) by (simp_all add: floor_mono ceiling_mono)
  have in_range: "nat \<lceil>r2\<rceil> < length s"
    using c2 ne by (cases s) (simp_all add: nat_less_iff)
  have nth_mono: "s ! nat i \<le> s ! nat j" if "0 \<le> i" "i \<le> j" "j \<le> \<lceil>r2\<rceil>" for i j :: int
  proof -
    from that have "nat i \<le> nat j" by simp
    moreover from that in_range have "nat j < length s" by linarith
    ultimately show ?thesis using srt by (simp add: sorted_nth_mono)
  qed
  have w1: "0 \<le> r1 - real (nat \<lfloor>r1\<rfloor>)" "r1 - real (nat \<lfloor>r1\<rfloor>) \<le> 1"
    using f1 by (simp_all add: of_nat_nat) linarith+
  have w2: "0 \<le> r2 - real (nat \<lfloor>r2\<rfloor>)" "r2 - real (nat \<lfloor>r2\<rfloor>) \<le> 1"
    using f2 by (simp_all add: of_nat_nat) linarith+
  have lh1: "s ! nat \<lfloor>r1\<rfloor> \<le> s ! nat \<lceil>r1\<rceil>"
    using f1 fc1 cc by (intro nth_mono)
  have lh2: "s ! nat \<lfloor>r2\<rfloor> \<le> s ! nat \<lceil>r2\<rceil>"
    using f2 fc2 by (intro nth_mono) simp_all
  show ?thesis
  proof (cases "\<lceil>r1\<rceil> \<le> \<lfloor>r2\<rfloor>")
    case True
    have "s ! nat \<lfloor>r1\<rfloor> + (r1 - real (nat \<lfloor>r1\<rfloor>)) * (s ! nat \<lceil>r1\<rceil> - s ! nat \<lfloor>r1\<rfloor>)
            \<le> s ! nat \<lceil>r1\<rceil>"
      by (rule interpolate_between(2) [OF lh1 w1])
    also have "\<dots> \<le> s ! nat \<lfloor>r2\<rfloor>"
    proof (rule nth_mono)
      from f1 fc1 show "0 \<le> \<lceil>r1\<rceil>" by linarith
      from True show "\<lceil>r1\<rceil> \<le> \<lfloor>r2\<rfloor>" .
      from fc2 show "\<lfloor>r2\<rfloor> \<le> \<lceil>r2\<rceil>" .
    qed
    also have "\<dots> \<le> s ! nat \<lfloor>r2\<rfloor> + (r2 - real (nat \<lfloor>r2\<rfloor>)) * (s ! nat \<lceil>r2\<rceil> - s ! nat \<lfloor>r2\<rfloor>)"
      by (rule interpolate_between(1) [OF lh2 w2])
    finally show ?thesis .
  next
    case False
    then have "\<lfloor>r2\<rfloor> < \<lceil>r1\<rceil>" by simp
    moreover have "\<lceil>r1\<rceil> \<le> \<lfloor>r1\<rfloor> + 1" by linarith
    ultimately have feq: "\<lfloor>r2\<rfloor> = \<lfloor>r1\<rfloor>" using ff by linarith
    have "\<lceil>r2\<rceil> \<le> \<lfloor>r2\<rfloor> + 1" by linarith
    with feq \<open>\<lfloor>r2\<rfloor> < \<lceil>r1\<rceil>\<close> cc have ceq: "\<lceil>r2\<rceil> = \<lceil>r1\<rceil>" by linarith
    have "(r1 - real (nat \<lfloor>r1\<rfloor>)) * (s ! nat \<lceil>r1\<rceil> - s ! nat \<lfloor>r1\<rfloor>)
            \<le> (r2 - real (nat \<lfloor>r1\<rfloor>)) * (s ! nat \<lceil>r1\<rceil> - s ! nat \<lfloor>r1\<rfloor>)"
      using r(2) lh1 by (intro mult_right_mono) simp_all
    then show ?thesis by (simp add: feq ceq)
  qed
qed

lemma quantile_t_mono:
  assumes "0 \<le> q1" and "q1 \<le> q2" and "q2 \<le> 1" and "xs \<noteq> []"
  shows "\<exists>a k. quantile_t q1 xs = Inr a \<and> quantile_t q2 xs = Inr k \<and> a \<le> k"
proof -
  let ?s = "sort xs"
  let ?n1 = "real (length xs - 1)"
  have srt: "sorted ?s" by simp
  have ne: "?s \<noteq> []" using assms(4) by (metis length_sort length_0_conv)
  have n1: "0 \<le> ?n1" by simp
  have r: "0 \<le> q1 * ?n1" "q1 * ?n1 \<le> q2 * ?n1" "q2 * ?n1 \<le> real (length ?s - 1)"
    using assms n1 by (simp_all add: mult_right_mono mult_left_le_one_le)
  from interpolate_mono [OF srt r ne] assms show ?thesis
    by (simp add: quantile_t_def Let_def)
qed

text \<open>
  Claim C5, amended. For any non-empty quantile vector both percentile reductions return
  a value, and the risk-averse one (10th percentile) is at most the risk-seeking one (90th
  percentile). The mean is not part of the ordering.
\<close>

theorem risk_ordering:
  assumes "xs \<noteq> []"
  shows "\<exists>a k. q_values ''risk-averse'' [[xs]] = Inr [[a]] \<and>
               q_values ''risk-seeking'' [[xs]] = Inr [[k]] \<and> a \<le> k"
proof -
  have "\<exists>a k. quantile_t 0.1 xs = Inr a \<and> quantile_t 0.9 xs = Inr k \<and> a \<le> k"
    by (rule quantile_t_mono [OF _ _ _ assms]) simp_all
  then show ?thesis by (auto simp add: q_values_def)
qed

theorem risk_ordering_witness:
  "[3, 1, 2 :: real] \<noteq> [] \<and>
   q_values ''risk-averse'' [[[3, 1, 2]]] = Inr [[6 / 5]] \<and>
   q_values ''risk-seeking'' [[[3, 1, 2]]] = Inr [[14 / 5]] \<and> (6 / 5 :: real) \<le> 14 / 5"
proof -
  let ?xs = "[3, 1, 2 :: real]"
  have ne: "?xs \<noteq> []" by simp
  have av: "q_values ''risk-averse'' [[?xs]] = Inr [[6 / 5]]"
    and se: "q_values ''risk-seeking'' [[?xs]] = Inr [[14 / 5]]"
    by (simp_all add: q_values_def quantile_t_def)
  from risk_ordering [OF ne] obtain a k where
    "q_values ''risk-averse'' [[?xs]] = Inr [[a]]"
    "q_values ''risk-seeking'' [[?xs]] = Inr [[k]]" "a \<le> k"
    by blast
  with av se have "(6 / 5 :: real) \<le> 14 / 5" by simp
  with ne av se show ?thesis by blast
qed

subsection \<open>The quantile Huber loss\<close>

text \<open>
  Claim C1, as stated: the loss of a batch element is the reference formula with \<open>tau_hat\<close>
  taken at the target quantile index. For two quantiles, targets \<open>[0, 0]\<close> and predictions
  \<open>[1, 0]\<close> the code's loss is 3/16 and that formula gives 1/8.
\<close>

theorem quantile_huber_loss_counterexample:
  "quantile_huber_loss [1 / 4, 3 / 4] [[0, 0]] [[1, 0]] ! 0 = 3 / 16 \<and>
   element_loss_target_tau [1 / 4, 3 / 4] 2 [0, 0] [1, 0] = 1 / 8 \<and>
   quantile_huber_loss [1 / 4, 3 / 4] [[0, 0]] [[1, 0]] ! 0 \<noteq>
     element_loss_target_tau [1 / 4, 3 / 4] 2 [0, 0] [1, 0]"
  by (simp add: quantile_huber_loss_def element_loss_target_tau_def huber_def mean_t_def
      upt_conv_Cons)

lemma weighted_huber_rows:
  assumes "length tau = length p"
  shows "map2 (map2 (*))
           (map2 (\<lambda>tv row. map (\<lambda>i. \<bar>tv - i\<bar>) row) tau
              (map (map (\<lambda>x. if x < 0 then 1 else 0)) (map (\<lambda>pv. map (\<lambda>tv. tv - pv) t) p)))
           (map (map (\<lambda>x. huber x 1)) (map (\<lambda>pv. map (\<lambda>tv. tv - pv) t) p))
         = map (\<lambda>j. map (\<lambda>i. \<bar>tau ! j - (if t ! i - p ! j < 0 then 1 else 0)\<bar>
                               * huber (t ! i - p ! j) 1) [0 ..< length t])
             [0 ..< length p]"
proof (rule nth_equalityI)
  show "length (map2 (map2 (*))
           (map2 (\<lambda>tv row. map (\<lambda>i. \<bar>tv - i\<bar>) row) tau
              (map (map (\<lambda>x. if x < 0 then 1 else 0)) (map (\<lambda>pv. map (\<lambda>tv. tv - pv) t) p)))
           (map (map (\<lambda>x. huber x 1)) (map (\<lambda>pv. map (\<lambda>tv. tv - pv) t) p)))
      = length (map (\<lambda>j. map (\<lambda>i. \<bar>tau ! j - (if t ! i - p ! j < 0 then 1 else 0)\<bar>
                               * huber (t ! i - p ! j) 1) [0 ..< length t])
             [0 ..< length p])"
    using assms by simp
next
  fix j
  assume "j < length (map2 (map2 (*))
           (map2 (\<lambda>tv row. map (\<lambda>i. \<bar>tv - i\<bar>) row) tau
              (map (map (\<lambda>x. if x < 0 then 1 else 0)) (map (\<lambda>pv. map (\<lambda>tv. tv - pv) t) p)))
           (map (map (\<lambda>x. huber x 1)) (map (\<lambda>pv. map (\<lambda>tv. tv - pv) t) p)))"
  then have j: "j < length p" using assms by simp
  have "map2 (*) (map (\<lambda>i. \<bar>tau ! j - i\<bar>) (map (\<lambda>x. if x < 0 then 1 else 0) (map (\<lambda>tv. tv - p ! j) t)))
           (map (\<lambda>x. huber x 1) (map (\<lambda>tv. tv - p ! j) t))
        = map (\<lambda>i. \<bar>tau ! j - (if t ! i - p ! j < 0 then 1 else 0)\<bar> * huber (t ! i - p ! j) 1)
            [0 ..< length t]"
    by (rule nth_equalityI) simp_all
  with j assms show "map2 (map2 (*))
           (map2 (\<lambda>tv row. map (\<lambda>i. \<bar>tv - i\<bar>) row) tau
              (map (map (\<lambda>x. if x < 0 then 1 else 0)) (map (\<lambda>pv. map (\<lambda>tv. tv - pv) t) p)))
           (map (map (\<lambda>x. huber x 1)) (map (\<lambda>pv. map (\<lambda>tv. tv - pv) t) p)) ! j
         = map (\<lambda>j. map (\<lambda>i. \<bar>tau ! j - (if t ! i - p ! j < 0 then 1 else 0)\<bar>
                               * huber (t ! i - p ! j) 1) [0 ..< length t])
             [0 ..< length p] ! j"
    by simp
qed

lemma means_swap:
  fixes f :: "nat \<Rightarrow> nat \<Rightarrow> real"
  shows "(\<Sum>j\<leftarrow>[0 ..< m]. (\<Sum>i\<leftarrow>[0 ..< n]. f i j) / real n) / real m
       = (\<Sum>i\<leftarrow>[0 ..< n]. (\<Sum>j\<leftarrow>[0 ..< m]. f i j) / real m) / real n"
proof -
  have "(\<Sum>j\<leftarrow>[0 ..< m]. (\<Sum>i\<leftarrow>[0 ..< n]. f i j) / real n) / real m
      = (\<Sum>j = 0 ..< m. \<Sum>i = 0 ..< n. f i j) / real n / real m"
    by (simp add: interv_sum_list_conv_sum_set_nat sum_divide_distrib)
  also have "(\<Sum>j = 0 ..< m. \<Sum>i = 0 ..< n. f i j) = (\<Sum>i = 0 ..< n. \<Sum>j = 0 ..< m. f i j)"
    by (rule sum.swap)
  also have "(\<Sum>i = 0 ..< n. \<Sum>j = 0 ..< m. f i j) / real n / real m
      = (\<Sum>i\<leftarrow>[0 ..< n]. (\<Sum>j\<leftarrow>[0 ..< m]. f i j) / real m) / real n"
    by (simp add: interv_sum_list_conv_sum_set_nat sum_divide_distrib mult.commute)
  finally show ?thesis .
qed


lemma map2_nth:
  assumes "i < length xs" and "i < length ys"
  shows "map2 f xs ys ! i = f (xs ! i) (ys ! i)"
  using assms by simp

lemma quantile_huber_loss_nth:
  assumes tau: "length tau = n" and len: "length tgts = length preds"
    and b: "b < length preds"
    and rows: "length (tgts ! b) = n" "length (preds ! b) = n"
  shows "quantile_huber_loss tau tgts preds ! b =
           element_loss_predicted_tau tau n (tgts ! b) (preds ! b)"
proof -
  let ?t = "tgts ! b" and ?p = "preds ! b"
  let ?g = "\<lambda>i j. \<bar>tau ! j - (if ?t ! i - ?p ! j < 0 then 1 else 0)\<bar> * huber (?t ! i - ?p ! j) 1"
  have tp: "length tau = length ?p" using tau rows by simp
  have "quantile_huber_loss tau tgts preds ! b =
          mean_t (map mean_t (map (\<lambda>j. map (\<lambda>i. ?g i j) [0 ..< length ?t]) [0 ..< length ?p]))"
    unfolding quantile_huber_loss_def Let_def
    using len b by (simp only: map2_nth weighted_huber_rows [OF tp])
  also have "\<dots> = (\<Sum>j\<leftarrow>[0 ..< n]. (\<Sum>i\<leftarrow>[0 ..< n]. ?g i j) / real n) / real n"
    using rows by (simp add: mean_t_def comp_def)
  also have "\<dots> = (\<Sum>i\<leftarrow>[0 ..< n]. (\<Sum>j\<leftarrow>[0 ..< n]. ?g i j) / real n) / real n"
    by (rule means_swap)
  finally show ?thesis by (simp add: element_loss_predicted_tau_def)
qed

text \<open>
  Claim C1, amended. For \<open>n \<ge> 1\<close> quantiles and a non-empty batch of matching shapes,
  the loss of each batch element is the reference formula with \<open>tau_hat\<close> taken at the
  predicted quantile index: with \<open>delta i j = target i - predicted j\<close>, the Huber value is
  weighted by \<open>\<bar>tau_hat j - 1{delta i j < 0}\<bar>\<close> and averaged over the predicted axis, then
  over the target axis. The scalar loss is the mean over the batch of the importance weight
  times the element's loss.
\<close>

theorem quantile_huber_loss_reference:
  assumes tau: "length tau = n" and n: "0 < n"
    and len: "length tgts = length preds" "length ws = length preds" "0 < length preds"
    and rows: "\<forall>b < length preds. length (tgts ! b) = n \<and> length (preds ! b) = n"
  shows "(\<forall>b < length preds.
            quantile_huber_loss tau tgts preds ! b =
              element_loss_predicted_tau tau n (tgts ! b) (preds ! b)) \<and>
         weighted_loss ws (quantile_huber_loss tau tgts preds) =
           batch_mean_loss ws
             (\<lambda>b. element_loss_predicted_tau tau n (tgts ! b) (preds ! b)) (length preds)"
proof -
  have el: "quantile_huber_loss tau tgts preds ! b =
              element_loss_predicted_tau tau n (tgts ! b) (preds ! b)"
    if "b < length preds" for b
    using that rows by (intro quantile_huber_loss_nth [OF tau len(1)]) simp_all
  have ll: "length (quantile_huber_loss tau tgts preds) = length preds"
    using len by (simp add: quantile_huber_loss_def)
  have "map2 (*) ws (quantile_huber_loss tau tgts preds) =
          map (\<lambda>b. ws ! b * element_loss_predicted_tau tau n (tgts ! b) (preds ! b))
            [0 ..< length preds]"
    using len ll el by (intro nth_equalityI) simp_all
  then have "weighted_loss ws (quantile_huber_loss tau tgts preds) =
           batch_mean_loss ws
             (\<lambda>b. element_loss_predicted_tau tau n (tgts ! b) (preds ! b)) (length preds)"
    by (simp add: weighted_loss_def batch_mean_loss_def mean_t_def)
  with el show ?thesis by blast
qed

theorem quantile_huber_loss_reference_witness:
  "length [1 / 4, 3 / 4 :: real] = 2 \<and> (0 :: nat) < 2 \<and>
   length [[0, 0 :: real]] = length [[1, 0 :: real]] \<and>
   length [2 :: real] = length [[1, 0 :: real]] \<and> 0 < length [[1, 0 :: real]] \<and>
   length ([[0, 0 :: real]] ! 0) = 2 \<and> length ([[1, 0 :: real]] ! 0) = 2 \<and>
   element_loss_predicted_tau [1 / 4, 3 / 4] 2 [0, 0] [1, 0] = 3 / 16 \<and>
   quantile_huber_loss [1 / 4, 3 / 4] [[0, 0]] [[1, 0]] ! 0 = 3 / 16 \<and>
   weighted_loss [2] (quantile_huber_loss [1 / 4, 3 / 4] [[0, 0]] [[1, 0]]) = 3 / 8"
proof -
  let ?tau = "[1 / 4, 3 / 4 :: real]" and ?t = "[[0, 0 :: real]]" and ?p = "[[1, 0 :: real]]"
  have tau: "length ?tau = 2" and n: "(0 :: nat) < 2" by simp_all
  have len: "length ?t = length ?p" "length [2 :: real] = length ?p" "0 < length ?p"
    by simp_all
  have rows: "\<forall>b < length ?p. length (?t ! b) = 2 \<and> length (?p ! b) = 2" by simp
  have rows0: "length (?t ! 0) = 2" "length (?p ! 0) = 2" by simp_all
  have el: "element_loss_predicted_tau ?tau 2 [0, 0] [1, 0] = 3 / 16"
    by (simp add: element_loss_predicted_tau_def huber_def upt_conv_Cons)
  note ref = quantile_huber_loss_reference [OF tau n len rows]
  from ref have "quantile_huber_loss ?tau ?t ?p ! 0 =
      element_loss_predicted_tau ?tau 2 (?t ! 0) (?p ! 0)"
    by simp
  with el have q: "quantile_huber_loss ?tau ?t ?p ! 0 = 3 / 16" by simp
  from ref have "weighted_loss [2] (quantile_huber_loss ?tau ?t ?p) =
      batch_mean_loss [2] (\<lambda>b. element_loss_predicted_tau ?tau 2 (?t ! b) (?p ! b)) (length ?p)"
    by blast
  with el have w: "weighted_loss [2] (quantile_huber_loss ?tau ?t ?p) = 3 / 8"
    by (simp add: batch_mean_loss_def)
  from tau n len rows0 el q w show ?thesis by blast
qed

end
